theory Spec2Isabelle
  imports Main "HOL-Library.Word"
begin

section \<open>Data model\<close>

text \<open>
  The source works on C++ \<open>int\<close> (32-bit two's complement) and \<open>long long\<close> (64-bit
  two's complement).  Both are modelled as machine words whose arithmetic wraps around;
  \<open>sint\<close> reads the signed value, \<open><s\<close> and \<open>\<le>s\<close> are the signed comparisons.  The C++
  standard leaves signed overflow undefined; the model takes the two's-complement result
  that the machine addition delivers.
\<close>

type_synonym cpp_int = "32 word"
type_synonym long_long = "64 word"

text \<open>\<open>std::unordered_map<int, long long> fib_cache\<close>: a finite map, here a partial function.\<close>

type_synonym cache = "cpp_int \<rightharpoonup> long_long"

text \<open>
  The exceptions of the program: \<open>std::invalid_argument\<close> with its message, thrown by the
  solver; \<open>std::system_error\<close>, thrown by \<open>std::async(std::launch::async, ...)\<close> when no
  thread can be started; and \<open>std::length_error\<close>, thrown by \<open>std::vector::reserve\<close> on a
  request beyond \<open>max_size()\<close>.
\<close>

datatype exn = Invalid_Argument string | System_Error | Length_Error string

text \<open>
  Whether a thread can be started is decided by the environment.  It is an input of the
  model: the list holds, in the order of the calls, whether each coming \<open>std::async\<close>
  starts its thread; calls beyond the end of the list start theirs.  So \<open>[]\<close> is the
  environment in which every launch succeeds, and \<open>[True, False]\<close> the one in which the
  second launch fails.  The state the program runs on is the cache together with this list.
\<close>

type_synonym world = "cache \<times> bool list"

fun std_async :: "bool list \<Rightarrow> bool \<times> bool list" where
  "std_async [] = (True, [])"
| "std_async (started # ls) = (started, ls)"

section \<open>The memoized solver\<close>

text \<open>
  \<open>fibonacci_cpp\<close> with the global cache passed in and returned.  Both tasks are launched
  first, as in the source; then they are run to completion one after the other (first
  \<open>n - 1\<close>, then \<open>n - 2\<close>), which is one of the schedules the program admits; the
  interleaving semantics below covers all of them.  The lock and the one-millisecond sleep
  have no effect on values and leave no trace in this sequential reading.

  A launch that fails throws \<open>std::system_error\<close>, which the solver catches nowhere: when
  the first launch fails the call ends at once; when the second fails, the destructor of
  \<open>fut1\<close> waits for the first task, which runs to its end, and then the call ends with
  the exception.  An exception of a sub-computation is rethrown by \<open>get()\<close>; the destructors
  of both futures have waited for both tasks by the time it leaves the call.

  The source declares the first lock as a \<open>std::lock_guard\<close> and then calls
  \<open>lock.unlock()\<close> on it, which only a \<open>std::unique_lock\<close> offers; the model follows the
  comments of the source: the lock is held for the look-up, released before the recursive
  calls, and taken again for the store.
\<close>

function fibonacci_cpp :: "cpp_int \<Rightarrow> world \<Rightarrow> (exn + long_long) \<times> world" where
  "fibonacci_cpp n (c, ls) =
    (if n <s 0 then (Inl (Invalid_Argument ''Input must be a non-negative integer.''), (c, ls))
     else if n = 0 then (Inr 0, (c, ls))
     else if n = 1 then (Inr 1, (c, ls))
     else (case c n of
             Some v \<Rightarrow> (Inr v, (c, ls))
           | None \<Rightarrow>
              (case std_async ls of (started1, ls1) \<Rightarrow>
                if \<not> started1 then (Inl System_Error, (c, ls1))
                else
                 (case std_async ls1 of (started2, ls2) \<Rightarrow>
                  (case fibonacci_cpp (n - 1) (c, ls2) of (r1, w1) \<Rightarrow>
                    if \<not> started2 then (Inl System_Error, w1)
                    else
                     (case fibonacci_cpp (n - 2) w1 of (r2, (c2, ls4)) \<Rightarrow>
                      (case r1 of
                         Inl e \<Rightarrow> (Inl e, (c2, ls4))
                       | Inr a \<Rightarrow>
                          (case r2 of
                             Inl e \<Rightarrow> (Inl e, (c2, ls4))
                           | Inr b \<Rightarrow> (Inr (a + b), (c2(n \<mapsto> a + b), ls4))))))))))"
  by pat_completeness auto

lemma sint_ge_1:
  fixes n :: cpp_int
  assumes "\<not> n <s 0" "n \<noteq> 0"
  shows "1 \<le> sint n"
proof -
  have "0 \<le> sint n" using assms(1) by (simp add: word_sless_alt)
  moreover have "sint n \<noteq> 0" using assms(2) by (simp add: signed_eq_0_iff)
  ultimately show ?thesis by simp
qed

lemma sint_ge_2:
  fixes n :: cpp_int
  assumes "\<not> n <s 0" "n \<noteq> 0" "n \<noteq> 1"
  shows "2 \<le> sint n"
proof -
  have "sint n \<noteq> 1"
  proof
    assume "sint n = 1"
    hence "(of_int (sint n) :: cpp_int) = of_int 1" by simp
    thus False using assms(3) by simp
  qed
  thus ?thesis using sint_ge_1[OF assms(1,2)] by simp
qed

lemma sint_nonneg_pred:
  fixes n :: cpp_int
  assumes "\<not> n <s 0" "n \<noteq> 0"
  shows "sint (n - 1) = sint n - 1"
proof -
  have b: "1 \<le> sint n" by (rule sint_ge_1[OF assms])
  have c: "sint n < 2 ^ 31" using sint_lt[of n] by simp
  have "sint (n - 1) = signed_take_bit 31 (sint n - 1)"
    by (simp add: sint_word_ariths)
  also have "\<dots> = sint n - 1"
    using b c by (simp add: signed_take_bit_int_eq_self)
  finally show ?thesis .
qed

lemma sint_nonneg_pred2:
  fixes n :: cpp_int
  assumes "\<not> n <s 0" "n \<noteq> 0" "n \<noteq> 1"
  shows "sint (n - 2) = sint n - 2"
proof -
  have b: "2 \<le> sint n" by (rule sint_ge_2[OF assms])
  have c: "sint n < 2 ^ 31" using sint_lt[of n] by simp
  have "sint (n - 2) = signed_take_bit 31 (sint n - 2)"
    by (simp add: sint_word_ariths)
  also have "\<dots> = sint n - 2"
    using b c by (simp add: signed_take_bit_int_eq_self)
  finally show ?thesis .
qed

lemma sint_pos:
  fixes n :: cpp_int
  assumes "\<not> n <s 0" "n \<noteq> 0"
  shows "0 < sint n"
  using sint_ge_1[OF assms] by simp

lemma sint_pred_less:
  fixes n :: cpp_int
  assumes "\<not> n <s 0" "n \<noteq> 0"
  shows "sint (n - 1) < sint n"
  using sint_nonneg_pred[OF assms] by simp

lemma sint_pred2_less:
  fixes n :: cpp_int
  assumes "\<not> n <s 0" "n \<noteq> 0" "n \<noteq> 1"
  shows "sint (n - 2) < sint n"
  using sint_nonneg_pred2[OF assms] by simp

termination fibonacci_cpp
  by (relation "measure (\<lambda>(n, w). nat (sint n))")
     (auto intro: sint_pos sint_pred_less sint_pred2_less)

declare fibonacci_cpp.simps [simp del]


section \<open>The batch driver\<close>

text \<open>
  What the driver writes to \<open>std::cout\<close> and \<open>std::cerr\<close>, one constructor per statement.
  The elapsed wall-clock time printed with the total is real time and is left out.
\<close>

datatype event =
    Cout_banner
  | Cout_calculating cpp_int cpp_int
  | Cerr_exception_caught string
  | Cout_total_time cpp_int
  | Cout_complete

text \<open>
  \<open>e.what()\<close>.  The text of a \<open>std::system_error\<close> is chosen by the implementation; the one
  given here is that of \<open>EAGAIN\<close>.
\<close>

fun what :: "exn \<Rightarrow> string" where
  "what (Invalid_Argument msg) = msg"
| "what System_Error = ''Resource temporarily unavailable''"
| "what (Length_Error msg) = msg"

text \<open>
  The first loop, \<open>for (int i = 0; i <= maxN; ++i) futures.push_back(std::async(...))\<close>.
  A future is represented by the argument of the call it was launched with.  The loop is
  outside the \<open>try\<close> block, so a launch that fails ends it, and the driver, with
  \<open>std::system_error\<close>.  The counter is a 32-bit \<open>int\<close> and \<open>++i\<close> is taken to wrap, so
  the loop is written as a partial function: that it ends is proved where it is claimed
  (\<open>spawn_loop_launches\<close>, \<open>spawn_loop_fails\<close>).
\<close>

partial_function (option) spawn_loop ::
    "cpp_int \<Rightarrow> cpp_int \<Rightarrow> cpp_int list \<Rightarrow> bool list \<Rightarrow> ((exn + cpp_int list) \<times> bool list) option" where
  "spawn_loop maxN i futures ls =
     (if i \<le>s maxN then
        (case std_async ls of (started, ls1) \<Rightarrow>
           if started then spawn_loop maxN (i + 1) (futures @ [i]) ls1
           else Some (Inl System_Error, ls1))
      else Some (Inr futures, ls))"

declare spawn_loop.simps [code]

text \<open>The launched tasks, each run to completion in launch order on the shared cache.\<close>

fun run_tasks :: "cpp_int list \<Rightarrow> world \<Rightarrow> (exn + long_long) list \<times> world" where
  "run_tasks [] w = ([], w)"
| "run_tasks (i # futures) w =
     (case fibonacci_cpp i w of (r, w1) \<Rightarrow>
      (case run_tasks futures w1 of (rs, w2) \<Rightarrow> (r # rs, w2)))"

text \<open>
  The second loop, over the futures in order: \<open>fut.get()\<close> either yields the value, which
  is appended to \<open>results\<close>, or rethrows the task's exception, which is caught, reported on
  \<open>std::cerr\<close> and replaced by \<open>-1\<close>.
\<close>

fun collect :: "(exn + long_long) list \<Rightarrow> long_long list \<Rightarrow> event list \<Rightarrow> long_long list \<times> event list" where
  "collect [] results out = (results, out)"
| "collect (Inr v # futures) results out = collect futures (results @ [v]) out"
| "collect (Inl e # futures) results out =
     collect futures (results @ [- 1]) (out @ [Cerr_exception_caught (what e)])"

record driver_state =
  printed :: "event list"
  results :: "long_long list"
  fib_cache :: cache

text \<open>
  \<open>calculateConcurrentFibonacci_cpp\<close>.  The function returns \<open>void\<close>; the model returns what it
  printed, its local vector \<open>results\<close> and the cache, or the exception that left it.
  A launch that fails in the first loop leaves the function with \<open>std::system_error\<close> and
  without results; the tasks launched before it still run to their end, since the
  destructors of their futures wait for them, and what they do to the cache is covered by
  the interleaving semantics below.  \<open>results.reserve(maxN + 1)\<close> converts its \<open>int\<close>
  argument to the unsigned \<open>size_type\<close>, so a negative \<open>maxN + 1\<close> is a request beyond
  \<open>max_size()\<close> and throws \<open>std::length_error\<close>, which nothing catches.
\<close>

definition calculateConcurrentFibonacci_cpp ::
    "cpp_int \<Rightarrow> cpp_int \<Rightarrow> world \<Rightarrow> (exn + driver_state) option" where
  "calculateConcurrentFibonacci_cpp maxN numThreads w =
     (case w of (c, ls) \<Rightarrow>
      (case spawn_loop maxN 0 [] ls of
         None \<Rightarrow> None
       | Some (launched, ls1) \<Rightarrow>
          (case launched of
             Inl e \<Rightarrow> Some (Inl e)
           | Inr futures \<Rightarrow>
              (case run_tasks futures (c, ls1) of (outcomes, (c', ls')) \<Rightarrow>
                 if maxN + 1 <s 0 then Some (Inl (Length_Error ''vector::reserve''))
                 else
                   (case collect outcomes [] [Cout_banner, Cout_calculating maxN numThreads] of
                      (rs, out) \<Rightarrow>
                        Some (Inr \<lparr>printed = out @ [Cout_total_time maxN, Cout_complete],
                                   results = rs, fib_cache = c'\<rparr>))))))"

section \<open>Interleaving semantics\<close>

text \<open>
  Every call of the solver started with \<open>std::async(std::launch::async, ...)\<close> runs as a task
  of its own.  A task is a tree: a call that has not begun (\<open>Call\<close>), a call that missed the
  cache and has released the lock (\<open>Unlocked\<close>), a call waiting at
  \<open>fut1.get() + fut2.get()\<close> for its two children (\<open>Awaiting\<close>), a call whose second launch
  failed and that waits in the destructor of \<open>fut1\<close> for its first child (\<open>Unwinding\<close>), or
  a finished call with its value or exception (\<open>Finished\<close>).

  A step is what one task does between two points where other tasks can interfere.  The
  cache is touched only inside the two critical sections, the look-up and the store, and
  each of them is one step.  The two children are launched in one step; a run in which the
  first child moves before the second is launched is the run in which the second child has
  been launched and has not moved yet.  Whether a launch succeeds is not determined by the
  program: at \<open>Unlocked\<close> the first launch may fail, the second may fail, or both succeed.
  The order in which \<open>+\<close> evaluates its operands is unspecified, so when both children have
  failed either exception may propagate; the destructors of the futures wait for both
  children in every case.
\<close>

datatype task =
    Call cpp_int
  | Unlocked cpp_int
  | Awaiting cpp_int task task
  | Unwinding cpp_int task
  | Finished "exn + long_long"

inductive step :: "cache \<Rightarrow> task \<Rightarrow> cache \<Rightarrow> task \<Rightarrow> bool" where
  throw: "n <s 0 \<Longrightarrow>
      step c (Call n) c (Finished (Inl (Invalid_Argument ''Input must be a non-negative integer.'')))"
| base0: "step c (Call 0) c (Finished (Inr 0))"
| base1: "step c (Call 1) c (Finished (Inr 1))"
| hit: "\<not> n <s 0 \<Longrightarrow> n \<noteq> 0 \<Longrightarrow> n \<noteq> 1 \<Longrightarrow> c n = Some v \<Longrightarrow>
      step c (Call n) c (Finished (Inr v))"
| miss: "\<not> n <s 0 \<Longrightarrow> n \<noteq> 0 \<Longrightarrow> n \<noteq> 1 \<Longrightarrow> c n = None \<Longrightarrow>
      step c (Call n) c (Unlocked n)"
| launch: "step c (Unlocked n) c (Awaiting n (Call (n - 1)) (Call (n - 2)))"
| launch1_fails: "step c (Unlocked n) c (Finished (Inl System_Error))"
| launch2_fails: "step c (Unlocked n) c (Unwinding n (Call (n - 1)))"
| left: "step c t1 c' t1' \<Longrightarrow> step c (Awaiting n t1 t2) c' (Awaiting n t1' t2)"
| right: "step c t2 c' t2' \<Longrightarrow> step c (Awaiting n t1 t2) c' (Awaiting n t1 t2')"
| store: "step c (Awaiting n (Finished (Inr a)) (Finished (Inr b)))
               (c(n \<mapsto> a + b)) (Finished (Inr (a + b)))"
| rethrow1: "step c (Awaiting n (Finished (Inl e)) (Finished r)) c (Finished (Inl e))"
| rethrow2: "step c (Awaiting n (Finished r) (Finished (Inl e))) c (Finished (Inl e))"
| unwind: "step c t1 c' t1' \<Longrightarrow> step c (Unwinding n t1) c' (Unwinding n t1')"
| unwound: "step c (Unwinding n (Finished r)) c (Finished (Inl System_Error))"

code_pred (modes: i \<Rightarrow> i \<Rightarrow> o \<Rightarrow> o \<Rightarrow> bool) step .

text \<open>A pool of top-level tasks, as launched by the driver: any task may move next.\<close>

inductive pool_step :: "cache \<Rightarrow> task list \<Rightarrow> cache \<Rightarrow> task list \<Rightarrow> bool" where
  "step c t c' t' \<Longrightarrow> pool_step c (ts @ t # us) c' (ts @ t' # us)"

text \<open>Runs: finite sequences of steps, of one task and of a pool.\<close>

inductive steps :: "cache \<Rightarrow> task \<Rightarrow> cache \<Rightarrow> task \<Rightarrow> bool" where
  refl: "steps c t c t"
| step: "step c t c1 t1 \<Longrightarrow> steps c1 t1 c' t' \<Longrightarrow> steps c t c' t'"

inductive pool_steps :: "cache \<Rightarrow> task list \<Rightarrow> cache \<Rightarrow> task list \<Rightarrow> bool" where
  refl: "pool_steps c ts c ts"
| step: "pool_step c ts c1 ts1 \<Longrightarrow> pool_steps c1 ts1 c' ts' \<Longrightarrow> pool_steps c ts c' ts'"

text \<open>The arguments of the calls that are pending or in progress in a task.\<close>

fun calls :: "task \<Rightarrow> cpp_int set" where
  "calls (Call n) = {n}"
| "calls (Unlocked n) = {n}"
| "calls (Awaiting n t1 t2) = {n} \<union> calls t1 \<union> calls t2"
| "calls (Unwinding n t1) = {n} \<union> calls t1"
| "calls (Finished r) = {}"

section \<open>Specification\<close>

text \<open>The Fibonacci sequence, and its value as stored in a \<open>long long\<close>.\<close>

fun Fib :: "nat \<Rightarrow> nat" where
  "Fib 0 = 0"
| "Fib (Suc 0) = 1"
| "Fib (Suc (Suc n)) = Fib (Suc n) + Fib n"

definition Fib64 :: "cpp_int \<Rightarrow> long_long" where
  "Fib64 n = word_of_nat (Fib (nat (sint n)))"

text \<open>
  What a call of the solver with argument \<open>i\<close> produces when it is not cut short by a
  launch that fails.
\<close>

definition expected :: "cpp_int \<Rightarrow> exn + long_long" where
  "expected i =
     (if i <s 0 then Inl (Invalid_Argument ''Input must be a non-negative integer.'')
      else Inr (Fib64 i))"

text \<open>The cache invariant: keys are non-negative and each holds the 64-bit Fibonacci value.\<close>

definition cache_ok :: "cache \<Rightarrow> bool" where
  "cache_ok c \<longleftrightarrow> (\<forall>n v. c n = Some v \<longrightarrow> \<not> n <s 0 \<and> v = Fib64 n)"

text \<open>
  The invariant of a task that belongs to a call of the solver with argument \<open>n\<close>: the
  recursive path is only entered for \<open>n \<ge> 2\<close>, the children belong to \<open>n - 1\<close> and
  \<open>n - 2\<close>, and a finished task holds the expected outcome or the exception of a launch
  that failed.
\<close>

fun computes :: "cpp_int \<Rightarrow> task \<Rightarrow> bool" where
  "computes n (Call m) = (m = n)"
| "computes n (Unlocked m) = (m = n \<and> \<not> n <s 0 \<and> n \<noteq> 0 \<and> n \<noteq> 1)"
| "computes n (Awaiting m t1 t2) =
     (m = n \<and> \<not> n <s 0 \<and> n \<noteq> 0 \<and> n \<noteq> 1 \<and> computes (n - 1) t1 \<and> computes (n - 2) t2)"
| "computes n (Unwinding m t1) =
     (m = n \<and> \<not> n <s 0 \<and> n \<noteq> 0 \<and> n \<noteq> 1 \<and> computes (n - 1) t1)"
| "computes n (Finished r) = (r = expected n \<or> r = Inl System_Error)"

text \<open>
  The same invariant without the values: a finished task of a call with a negative argument
  holds \<open>std::invalid_argument\<close>, and one of a call with a non-negative argument holds some
  value or \<open>std::system_error\<close>.  It needs no assumption on the cache.
\<close>

fun shape :: "cpp_int \<Rightarrow> task \<Rightarrow> bool" where
  "shape n (Call m) = (m = n)"
| "shape n (Unlocked m) = (m = n \<and> \<not> n <s 0 \<and> n \<noteq> 0 \<and> n \<noteq> 1)"
| "shape n (Awaiting m t1 t2) =
     (m = n \<and> \<not> n <s 0 \<and> n \<noteq> 0 \<and> n \<noteq> 1 \<and> shape (n - 1) t1 \<and> shape (n - 2) t2)"
| "shape n (Unwinding m t1) =
     (m = n \<and> \<not> n <s 0 \<and> n \<noteq> 0 \<and> n \<noteq> 1 \<and> shape (n - 1) t1)"
| "shape n (Finished r) =
     (if n <s 0 then r = Inl (Invalid_Argument ''Input must be a non-negative integer.'')
      else \<not> isl r \<or> r = Inl System_Error)"

text \<open>A bound on the number of steps a task can still take.\<close>

function work_call :: "cpp_int \<Rightarrow> nat" where
  "work_call n =
     (if n <s 0 \<or> n = 0 \<or> n = 1 then 1 else 3 + work_call (n - 1) + work_call (n - 2))"
  by pat_completeness auto
termination
proof (relation "measure (\<lambda>n. nat (sint n))")
  show "wf (measure (\<lambda>n :: cpp_int. nat (sint n)))" by simp
next
  fix n :: cpp_int
  assume "\<not> (n <s 0 \<or> n = 0 \<or> n = 1)"
  hence h: "\<not> n <s 0" "n \<noteq> 0" "n \<noteq> 1" by simp_all
  show "(n - 1, n) \<in> measure (\<lambda>n. nat (sint n))"
    using sint_nonneg_pred[OF h(1,2)] sint_ge_1[OF h(1,2)] by simp
  show "(n - 2, n) \<in> measure (\<lambda>n. nat (sint n))"
    using sint_nonneg_pred2[OF h] sint_ge_2[OF h] by simp
qed

declare work_call.simps [simp del]

fun work :: "task \<Rightarrow> nat" where
  "work (Call n) = work_call n"
| "work (Unlocked n) = 2 + work_call (n - 1) + work_call (n - 2)"
| "work (Awaiting n t1 t2) = 1 + work t1 + work t2"
| "work (Unwinding n t1) = 1 + work t1"
| "work (Finished r) = 0"

section \<open>Properties of the solver\<close>

lemma Fib64_0: "Fib64 0 = 0" by (simp add: Fib64_def)
lemma Fib64_1: "Fib64 1 = 1" by (simp add: Fib64_def)

lemma Fib64_rec:
  assumes "\<not> n <s 0" "n \<noteq> 0" "n \<noteq> 1"
  shows "Fib64 n = Fib64 (n - 1) + Fib64 (n - 2)"
proof -
  define k where "k = nat (sint n - 2)"
  have g: "2 \<le> sint n" by (rule sint_ge_2[OF assms])
  have n: "nat (sint n) = Suc (Suc k)" using g by (simp add: k_def)
  have n1: "nat (sint (n - 1)) = Suc k"
    using g sint_nonneg_pred[OF assms(1,2)] by (simp add: k_def)
  have n2: "nat (sint (n - 2)) = k"
    using sint_nonneg_pred2[OF assms] by (simp add: k_def)
  show ?thesis by (simp add: Fib64_def n n1 n2)
qed

lemma pred_nonneg:
  assumes "\<not> n <s (0::cpp_int)" "n \<noteq> 0"
  shows "\<not> n - 1 <s 0"
  using sint_nonneg_pred[OF assms] sint_ge_1[OF assms] by (simp add: word_sless_alt)

lemma pred2_nonneg:
  assumes "\<not> n <s (0::cpp_int)" "n \<noteq> 0" "n \<noteq> 1"
  shows "\<not> n - 2 <s 0"
  using sint_nonneg_pred2[OF assms] sint_ge_2[OF assms] by (simp add: word_sless_alt)

lemma cache_ok_empty: "cache_ok Map.empty"
  by (simp add: cache_ok_def)

lemma cache_ok_upd: "cache_ok c \<Longrightarrow> \<not> n <s 0 \<Longrightarrow> cache_ok (c(n \<mapsto> Fib64 n))"
  by (simp add: cache_ok_def)

lemma expected_0: "expected 0 = Inr 0" by (simp add: expected_def Fib64_0)
lemma expected_1: "expected 1 = Inr 1" by (simp add: expected_def Fib64_1 word_sless_alt)

subsection \<open>The branches of the solver\<close>

lemma fibonacci_cpp_neg:
  "n <s 0 \<Longrightarrow> fibonacci_cpp n w = (Inl (Invalid_Argument ''Input must be a non-negative integer.''), w)"
  by (cases w) (simp add: fibonacci_cpp.simps)

lemma fibonacci_cpp_0: "fibonacci_cpp 0 w = (Inr 0, w)"
  by (cases w) (simp add: fibonacci_cpp.simps)

lemma fibonacci_cpp_1: "fibonacci_cpp 1 w = (Inr 1, w)"
  by (cases w) (simp add: fibonacci_cpp.simps word_sless_alt)

lemma fibonacci_cpp_hit:
  "\<not> n <s 0 \<Longrightarrow> n \<noteq> 0 \<Longrightarrow> n \<noteq> 1 \<Longrightarrow> c n = Some v \<Longrightarrow> fibonacci_cpp n (c, ls) = (Inr v, (c, ls))"
  by (simp add: fibonacci_cpp.simps)

lemma fibonacci_cpp_miss_cases [consumes 4, case_names fail1 fail2 both]:
  assumes "\<not> n <s 0" "n \<noteq> 0" "n \<noteq> 1" "c n = None"
  obtains
    (fail1) ls1 where "std_async ls = (False, ls1)"
      "fibonacci_cpp n (c, ls) = (Inl System_Error, (c, ls1))"
  | (fail2) ls1 ls2 r1 w1 where "std_async ls = (True, ls1)" "std_async ls1 = (False, ls2)"
      "fibonacci_cpp (n - 1) (c, ls2) = (r1, w1)"
      "fibonacci_cpp n (c, ls) = (Inl System_Error, w1)"
  | (both) ls1 ls2 r1 w1 r2 c2 ls4 where "std_async ls = (True, ls1)" "std_async ls1 = (True, ls2)"
      "fibonacci_cpp (n - 1) (c, ls2) = (r1, w1)"
      "fibonacci_cpp (n - 2) w1 = (r2, (c2, ls4))"
      "fibonacci_cpp n (c, ls) =
         (case r1 of
            Inl e \<Rightarrow> (Inl e, (c2, ls4))
          | Inr a \<Rightarrow>
             (case r2 of
                Inl e \<Rightarrow> (Inl e, (c2, ls4))
              | Inr b \<Rightarrow> (Inr (a + b), (c2(n \<mapsto> a + b), ls4))))"
proof -
  obtain started1 ls1 where a1: "std_async ls = (started1, ls1)" by (cases "std_async ls")
  obtain started2 ls2 where a2: "std_async ls1 = (started2, ls2)" by (cases "std_async ls1")
  obtain r1 w1 where e1: "fibonacci_cpp (n - 1) (c, ls2) = (r1, w1)"
    by (cases "fibonacci_cpp (n - 1) (c, ls2)")
  obtain r2 c2 ls4 where e2: "fibonacci_cpp (n - 2) w1 = (r2, (c2, ls4))"
    by (cases "fibonacci_cpp (n - 2) w1") auto
  show thesis
  proof (cases started1)
    case False
    thus ?thesis using fail1[of ls1] assms a1 by (simp add: fibonacci_cpp.simps[of n c ls])
  next
    case s1: True
    show ?thesis
    proof (cases started2)
      case False
      thus ?thesis using fail2[of ls1 ls2 r1 w1] assms a1 a2 e1 s1
        by (simp add: fibonacci_cpp.simps[of n c ls])
    next
      case True
      thus ?thesis using both[of ls1 ls2 r1 w1 r2 c2 ls4] assms a1 a2 e1 e2 s1
        by (simp add: fibonacci_cpp.simps[of n c ls])
    qed
  qed
qed

text \<open>Induction over the calls of the solver, with the hypothesis for every state.\<close>

lemma fibonacci_cpp_induct [case_names return miss]:
  assumes "\<And>(n::cpp_int) (c::cache) (ls::bool list).
             n <s 0 \<or> n = 0 \<or> n = 1 \<or> c n \<noteq> None \<Longrightarrow> P n (c, ls)"
    and "\<And>n c ls. \<not> n <s 0 \<Longrightarrow> n \<noteq> 0 \<Longrightarrow> n \<noteq> 1 \<Longrightarrow> c n = None \<Longrightarrow>
           (\<And>w. P (n - 1) w) \<Longrightarrow> (\<And>w. P (n - 2) w) \<Longrightarrow> P n (c, ls)"
  shows "P n w"
proof (induction "nat (sint n)" arbitrary: n w rule: less_induct)
  case (less n w)
  obtain c ls where w: "w = (c, ls)" by (cases w)
  show ?case
  proof (cases "n <s 0 \<or> n = 0 \<or> n = 1 \<or> c n \<noteq> None")
    case True
    thus ?thesis unfolding w by (rule assms(1))
  next
    case False
    hence h: "\<not> n <s 0" "n \<noteq> 0" "n \<noteq> 1" "c n = None" by simp_all
    have 1: "P (n - 1) w'" for w'
      using less[of "n - 1" w'] sint_nonneg_pred[OF h(1,2)] sint_ge_1[OF h(1,2)] by simp
    have 2: "P (n - 2) w'" for w'
      using less[of "n - 2" w'] sint_nonneg_pred2[OF h(1,2,3)] sint_ge_2[OF h(1,2,3)] by simp
    show ?thesis unfolding w by (rule assms(2)[of n c ls, OF h 1 2])
  qed
qed

lemma fibonacci_cpp_return:
  assumes "n <s 0 \<or> n = 0 \<or> n = 1 \<or> c n \<noteq> None"
  shows "snd (fibonacci_cpp n (c, ls)) = (c, ls)"
    and "fst (fibonacci_cpp n (c, ls)) =
           (if n <s 0 then Inl (Invalid_Argument ''Input must be a non-negative integer.'')
            else if n = 0 then Inr 0 else if n = 1 then Inr 1 else Inr (the (c n)))"
  using assms by (auto simp: fibonacci_cpp.simps[of n c ls])


subsection \<open>Outcome, cache and oracle of a call\<close>

text \<open>
  From a cache that satisfies the invariant a call leaves such a cache, and its outcome is
  the expected one unless a launch failed.
\<close>

lemma fibonacci_cpp_sound:
  "cache_ok (fst w) \<Longrightarrow>
     cache_ok (fst (snd (fibonacci_cpp n w))) \<and>
     (fst (fibonacci_cpp n w) = expected n \<or> fst (fibonacci_cpp n w) = Inl System_Error)"
proof (induction n w rule: fibonacci_cpp_induct)
  case (return n c ls)
  have ok: "cache_ok c" using return.prems by simp
  have s: "snd (fibonacci_cpp n (c, ls)) = (c, ls)" by (rule fibonacci_cpp_return(1)[of n c ls, OF return.hyps])
  have "fst (fibonacci_cpp n (c, ls)) = expected n"
  proof (cases "n <s 0 \<or> n = 0 \<or> n = 1")
    case True
    thus ?thesis
      by (auto simp: fibonacci_cpp_neg fibonacci_cpp_0 fibonacci_cpp_1 expected_def Fib64_0 Fib64_1
            word_sless_alt)
  next
    case False
    then obtain v where v: "c n = Some v" using return.hyps by auto
    have "v = Fib64 n" using ok v by (simp add: cache_ok_def)
    thus ?thesis using False fibonacci_cpp_hit[of n c v ls] v by (simp add: expected_def)
  qed
  thus ?case using ok s by simp
next
  case (miss n c ls)
  have ok: "cache_ok c" using miss.prems by simp
  from miss.hyps show ?case
  proof (cases rule: fibonacci_cpp_miss_cases[where ls = ls])
    case (fail1 ls1)
    thus ?thesis using ok by simp
  next
    case (fail2 ls1 ls2 r1 w1)
    have "cache_ok (fst w1)" using miss.IH(1)[of "(c, ls2)"] ok fail2(3) by simp
    thus ?thesis using fail2(4) by simp
  next
    case (both ls1 ls2 r1 w1 r2 c2 ls4)
    have 1: "cache_ok (fst w1)" "r1 = expected (n - 1) \<or> r1 = Inl System_Error"
      using miss.IH(1)[of "(c, ls2)"] ok both(3) by simp_all
    have 2: "cache_ok c2" "r2 = expected (n - 2) \<or> r2 = Inl System_Error"
      using miss.IH(2)[of w1] 1(1) both(4) by simp_all
    have e1: "expected (n - 1) = Inr (Fib64 (n - 1))"
      using pred_nonneg[OF miss.hyps(1,2)] by (simp add: expected_def)
    have e2: "expected (n - 2) = Inr (Fib64 (n - 2))"
      using pred2_nonneg[OF miss.hyps(1,2,3)] by (simp add: expected_def)
    have en: "expected n = Inr (Fib64 n)" using miss.hyps(1) by (simp add: expected_def)
    have r: "Fib64 (n - 1) + Fib64 (n - 2) = Fib64 n" using Fib64_rec[OF miss.hyps(1,2,3)] by simp
    show ?thesis
    proof (cases "r1 = Inl System_Error \<or> r2 = Inl System_Error")
      case True
      thus ?thesis using both(5) 1(2) 2 e1 by (auto split: sum.splits)
    next
      case False
      hence v: "r1 = Inr (Fib64 (n - 1))" "r2 = Inr (Fib64 (n - 2))" using 1(2) 2(2) e1 e2 by auto
      have f: "fibonacci_cpp n (c, ls) = (Inr (Fib64 n), (c2(n \<mapsto> Fib64 n), ls4))"
        unfolding both(5) v by (simp add: r)
      show ?thesis unfolding f fst_conv snd_conv en
        using cache_ok_upd[OF 2(1) miss.hyps(1)] by blast
    qed
  qed
qed

text \<open>A call only adds entries to the cache.\<close>

lemma fibonacci_cpp_map_le: "fst w \<subseteq>\<^sub>m fst (snd (fibonacci_cpp n w))"
proof (induction n w rule: fibonacci_cpp_induct)
  case (return n c ls)
  show ?case using fibonacci_cpp_return(1)[of n c ls, OF return.hyps] by simp
next
  case (miss n c ls)
  from miss.hyps show ?case
  proof (cases rule: fibonacci_cpp_miss_cases[where ls = ls])
    case (fail1 ls1)
    thus ?thesis by simp
  next
    case (fail2 ls1 ls2 r1 w1)
    thus ?thesis using miss.IH(1)[of "(c, ls2)"] by simp
  next
    case (both ls1 ls2 r1 w1 r2 c2 ls4)
    have 1: "c \<subseteq>\<^sub>m fst w1" using miss.IH(1)[of "(c, ls2)"] both(3) by simp
    have 2: "fst w1 \<subseteq>\<^sub>m c2" using miss.IH(2)[of w1] both(4) by simp
    have 3: "c \<subseteq>\<^sub>m c2" by (rule map_le_trans[OF 1 2])
    have 4: "c \<subseteq>\<^sub>m c2(n \<mapsto> x)" for x
      using 3 miss.hyps(4) unfolding map_le_def dom_def by auto
    show ?thesis unfolding both(5) using 3 4 by (simp split: sum.splits)
  qed
qed

text \<open>
  A call never ends with \<open>std::invalid_argument\<close> when its argument is not negative, whatever
  the cache holds: it returns a value or ends with the \<open>std::system_error\<close> of a launch.
\<close>

lemma fibonacci_cpp_outcome:
  "\<not> n <s 0 \<Longrightarrow>
     (\<exists>v. fst (fibonacci_cpp n w) = Inr v) \<or> fst (fibonacci_cpp n w) = Inl System_Error"
proof (induction n w rule: fibonacci_cpp_induct)
  case (return n c ls)
  show ?case using return.prems by (simp add: fibonacci_cpp_return(2)[of n c ls, OF return.hyps])
next
  case (miss n c ls)
  from miss.hyps show ?case
  proof (cases rule: fibonacci_cpp_miss_cases[where ls = ls])
    case (fail1 ls1)
    thus ?thesis by simp
  next
    case (fail2 ls1 ls2 r1 w1)
    thus ?thesis by simp
  next
    case (both ls1 ls2 r1 w1 r2 c2 ls4)
    have 1: "(\<exists>v. r1 = Inr v) \<or> r1 = Inl System_Error"
      using miss.IH(1)[of "(c, ls2)", OF pred_nonneg[OF miss.hyps(1,2)]] both(3) by simp
    have 2: "(\<exists>v. r2 = Inr v) \<or> r2 = Inl System_Error"
      using miss.IH(2)[of w1, OF pred2_nonneg[OF miss.hyps(1,2,3)]] both(4) by simp
    show ?thesis unfolding both(5) using 1 2 by (auto split: sum.splits)
  qed
qed

text \<open>When every launch succeeds, a call with a non-negative argument returns a value.\<close>

lemma fibonacci_cpp_launched:
  "snd w = [] \<Longrightarrow>
     snd (snd (fibonacci_cpp n w)) = [] \<and>
     (\<not> n <s 0 \<longrightarrow> (\<exists>v. fst (fibonacci_cpp n w) = Inr v))"
proof (induction n w rule: fibonacci_cpp_induct)
  case (return n c ls)
  have 1: "snd (fibonacci_cpp n (c, ls)) = (c, ls)"
    by (rule fibonacci_cpp_return(1)[of n c ls, OF return.hyps])
  have 2: "\<not> n <s 0 \<longrightarrow> (\<exists>v. fst (fibonacci_cpp n (c, ls)) = Inr v)"
    by (simp add: fibonacci_cpp_return(2)[of n c ls, OF return.hyps])
  show ?case using return.prems 2 unfolding 1 by simp
next
  case (miss n c ls)
  have ls: "ls = []" using miss.prems by simp
  from miss.hyps show ?case
  proof (cases rule: fibonacci_cpp_miss_cases[where ls = ls])
    case (fail1 ls1)
    thus ?thesis using ls by simp
  next
    case (fail2 ls1 ls2 r1 w1)
    thus ?thesis using ls by simp
  next
    case (both ls1 ls2 r1 w1 r2 c2 ls4)
    have l2: "ls2 = []" using both(1,2) ls by simp
    have 1: "snd w1 = []" "\<exists>v. r1 = Inr v"
      using miss.IH(1)[of "(c, ls2)"] l2 pred_nonneg[OF miss.hyps(1,2)] both(3) by simp_all
    have 2: "ls4 = []" "\<exists>v. r2 = Inr v"
      using miss.IH(2)[of w1] 1(1) pred2_nonneg[OF miss.hyps(1,2,3)] both(4) by simp_all
    show ?thesis unfolding both(5) using 1(2) 2 by auto
  qed
qed

text \<open>A call that returns a value for an argument of at least 2 leaves it in the cache.\<close>

lemma fibonacci_cpp_stores:
  assumes "\<not> n <s 0" "n \<noteq> 0" "n \<noteq> 1" "fst (fibonacci_cpp n w) = Inr v"
  shows "fst (snd (fibonacci_cpp n w)) n = Some v"
proof -
  obtain c ls where w: "w = (c, ls)" by (cases w)
  show ?thesis
  proof (cases "c n")
    case (Some u)
    thus ?thesis using assms fibonacci_cpp_hit[OF assms(1,2,3), of c u ls] by (simp add: w)
  next
    case None
    from assms(1,2,3) None show ?thesis
    proof (cases rule: fibonacci_cpp_miss_cases[where ls = ls])
      case (fail1 ls1)
      thus ?thesis using assms(4) by (simp add: w)
    next
      case (fail2 ls1 ls2 r1 w1)
      thus ?thesis using assms(4) by (simp add: w)
    next
      case (both ls1 ls2 r1 w1 r2 c2 ls4)
      thus ?thesis using assms(4) unfolding w by (auto split: sum.splits)
    qed
  qed
qed

text \<open>The value of a call that returns, from a cache that satisfies the invariant.\<close>

lemma fibonacci_cpp_value:
  assumes "cache_ok (fst w)" "fst (fibonacci_cpp n w) = Inr v"
  shows "\<not> n <s 0 \<and> v = Fib64 n"
  using fibonacci_cpp_sound[OF assms(1), of n] assms(2)
  by (auto simp: expected_def split: if_splits)

lemma fibonacci_cpp_expected:
  assumes "cache_ok c"
  shows "fst (fibonacci_cpp n (c, [])) = expected n"
proof (cases "n <s 0")
  case True
  thus ?thesis by (simp add: fibonacci_cpp_neg expected_def)
next
  case False
  then obtain v where v: "fst (fibonacci_cpp n (c, [])) = Inr v"
    using fibonacci_cpp_launched[of "(c, [])" n] by auto
  thus ?thesis using fibonacci_cpp_value[of "(c, [])" n v] assms False by (simp add: expected_def)
qed


section \<open>Fibonacci numbers and the range of \<open>long long\<close>\<close>

lemma Fib_add: "Fib (Suc (n + m)) = Fib (Suc n) * Fib (Suc m) + Fib n * Fib m"
  by (induction n rule: Fib.induct) (simp_all add: algebra_simps)

lemma Fib_odd: "Fib (Suc (2 * k)) = Fib k * Fib k + Fib (Suc k) * Fib (Suc k)"
  using Fib_add[of k k] by (simp add: mult_2)

lemma Fib_even: "Fib (Suc (Suc (2 * k))) = Fib (Suc k) * (2 * Fib k + Fib (Suc k))"
proof -
  have "Fib (Suc (Suc (2 * k))) = Fib (Suc (k + Suc k))" by (simp add: mult_2)
  also have "\<dots> = Fib (Suc k) * Fib (Suc (Suc k)) + Fib k * Fib (Suc k)" by (rule Fib_add)
  also have "\<dots> = Fib (Suc k) * (2 * Fib k + Fib (Suc k))" by (simp add: algebra_simps)
  finally show ?thesis .
qed

lemma Fib_pair_double:
  assumes "Fib k = a" "Fib (k + 1) = b"
  shows "Fib (2 * k + 1) = a * a + b * b" "Fib (2 * k + 2) = b * (2 * a + b)"
  using assms Fib_odd[of k] Fib_even[of k] by simp_all

lemma Fib_pred:
  assumes "Fib (k + 1) = a" "Fib (k + 2) = b"
  shows "Fib k = b - a"
  using assms by simp

lemma Fib_5_6: "Fib 5 = 5" "Fib 6 = 8"
  by (simp_all add: eval_nat_numeral)

lemma Fib_11_12: "Fib 11 = 89" "Fib 12 = 144"
  using Fib_pair_double[of 5 5 8] Fib_5_6 by simp_all

lemma Fib_23_24: "Fib 23 = 28657" "Fib 24 = 46368"
  using Fib_pair_double[of 11 89 144] Fib_11_12 by simp_all

lemma Fib_22: "Fib 22 = 17711"
  using Fib_pred[of 22 28657 46368] Fib_23_24 by simp

lemma Fib_46_47: "Fib 46 = 1836311903" "Fib 47 = 2971215073"
  using Fib_pair_double(2)[of 22 17711 28657] Fib_pair_double(1)[of 23 28657 46368]
    Fib_22 Fib_23_24 by simp_all



lemma Fib_93: "Fib 93 = 12200160415121876738"
  using Fib_pair_double(1)[of 46 1836311903 2971215073] Fib_46_47 by simp

lemma Fib_mono_Suc: "Fib n \<le> Fib (Suc n)"
  by (cases n) simp_all

lemma Fib_mono: "m \<le> n \<Longrightarrow> Fib m \<le> Fib n"
  by (rule lift_Suc_mono_le[of Fib]) (simp_all add: Fib_mono_Suc)


lemma sint_Fib_large:
  assumes "93 \<le> n"
  shows "sint (word_of_nat (Fib n) :: long_long) < int (Fib n)"
proof -
  have "Fib 93 \<le> Fib n" by (rule Fib_mono[OF assms])
  hence b: "2 ^ 63 \<le> int (Fib n)" by (simp add: Fib_93)
  have "sint (word_of_nat (Fib n) :: long_long) < 2 ^ 63"
    using sint_lt[of "word_of_nat (Fib n) :: long_long"] by simp
  thus ?thesis using b by linarith
qed

subsection \<open>The sentinel is not a Fibonacci value in range\<close>

text \<open>
  Modulo \<open>2 ^ (i + 2)\<close> the Fibonacci sequence has period \<open>6 * 2 ^ i\<close>, and it takes the
  value \<open>-1\<close> only at the indices \<open>n\<close> with \<open>n + 2\<close> a multiple of the period.  Hence no
  \<open>Fib n\<close> with \<open>n < 2 ^ 31\<close> is \<open>-1\<close> as a \<open>long long\<close>.
\<close>

lemma Fib_add_int:
  "int (Fib (Suc (n + m))) = int (Fib (Suc n)) * int (Fib (Suc m)) + int (Fib n) * int (Fib m)"
  by (simp add: Fib_add)

lemma Fib_double_int:
  "int (Fib (2 * m)) = int (Fib m) * (2 * int (Fib (Suc m)) - int (Fib m))"
proof (cases m)
  case 0
  thus ?thesis by simp
next
  case (Suc k)
  have e: "2 * Suc k = Suc (k + Suc k)" by simp
  have "int (Fib (2 * Suc k)) = int (Fib (Suc (k + Suc k)))" by (simp only: e)
  also have "\<dots> = int (Fib (Suc k)) * int (Fib (Suc (Suc k))) + int (Fib k) * int (Fib (Suc k))"
    by (rule Fib_add_int)
  also have "\<dots> = int (Fib (Suc k)) * (2 * int (Fib (Suc (Suc k))) - int (Fib (Suc k)))"
    by (simp add: algebra_simps)
  finally show ?thesis using Suc by simp
qed

lemma Fib_double_Suc_int:
  "int (Fib (Suc (2 * m))) = int (Fib m) * int (Fib m) + int (Fib (Suc m)) * int (Fib (Suc m))"
  by (simp add: Fib_odd)

lemma Fib_periodic:
  fixes M :: int
  assumes "M dvd int (Fib Q)" "M dvd int (Fib (Suc Q)) - 1"
  shows "M dvd int (Fib (m + Q)) - int (Fib m)"
proof (cases m)
  case 0
  thus ?thesis using assms(1) by simp
next
  case (Suc n)
  have "int (Fib (Suc n + Q)) - int (Fib (Suc n))
      = int (Fib (Suc n)) * (int (Fib (Suc Q)) - 1) + int (Fib n) * int (Fib Q)"
    using Fib_add_int[of n Q] by (simp add: algebra_simps)
  moreover have "M dvd int (Fib (Suc n)) * (int (Fib (Suc Q)) - 1) + int (Fib n) * int (Fib Q)"
    using assms by (intro dvd_add dvd_mult) 
  ultimately show ?thesis using Suc by simp
qed

lemma Fib_periodic_mult:
  fixes M :: int
  assumes "M dvd int (Fib Q)" "M dvd int (Fib (Suc Q)) - 1"
  shows "M dvd int (Fib (m + q * Q)) - int (Fib m)"
proof (induction q)
  case 0
  show ?case by simp
next
  case (Suc q)
  have e: "m + Suc q * Q = (m + q * Q) + Q" by simp
  have "int (Fib (m + Suc q * Q)) - int (Fib m)
      = (int (Fib ((m + q * Q) + Q)) - int (Fib (m + q * Q))) + (int (Fib (m + q * Q)) - int (Fib m))"
    by (simp only: e)
  moreover have "M dvd int (Fib ((m + q * Q) + Q)) - int (Fib (m + q * Q))"
    by (rule Fib_periodic[OF assms])
  ultimately show ?case using Suc by (simp only: dvd_add)
qed


lemma Fib_power_two_step:
  fixes a b u :: int
  assumes a: "2 * u dvd a" and b: "2 * u dvd b - 1 - u" and u: "4 dvd u"
  shows "4 * u dvd a * (2 * b - a)" "4 * u dvd a * a + b * b - 1 - 2 * u"
proof -
  obtain x where x: "a = 2 * u * x" using a by (auto simp: dvd_def)
  obtain y where y: "b = 1 + u + 2 * u * y" using b by (auto simp: dvd_def algebra_simps)
  obtain w where w: "u = 4 * w" using u by (auto simp: dvd_def)
  have "a * (2 * b - a) = 4 * u * (x * (b - u * x))"
    by (simp add: x algebra_simps)
  thus "4 * u dvd a * (2 * b - a)" by simp
  have "a * a + b * b - 1 - 2 * u = 4 * u * (y + w * ((1 + 2 * y) * (1 + 2 * y) + 4 * x * x))"
    by (simp add: x y w algebra_simps)
  thus "4 * u dvd a * a + b * b - 1 - 2 * u" by simp
qed

lemma Fib_power_two:
  "(2 :: int) ^ (i + 3) dvd int (Fib (6 * 2 ^ i))
   \<and> (2 :: int) ^ (i + 3) dvd int (Fib (Suc (6 * 2 ^ i))) - 1 - 2 ^ (i + 2)"
proof (induction i)
  case 0
  have "Fib 6 = 8" by (rule Fib_5_6)
  moreover have "Fib (Suc 6) = 13" using Fib_5_6 by (simp add: eval_nat_numeral)
  ultimately show ?case by simp
next
  case (Suc i)
  let ?Q = "6 * 2 ^ i :: nat"
  let ?u = "2 ^ (i + 2) :: int"
  have a: "2 * ?u dvd int (Fib ?Q)" and b: "2 * ?u dvd int (Fib (Suc ?Q)) - 1 - ?u"
    using Suc.IH by (simp_all add: power_add mult.commute)
  have u: "4 dvd ?u" by (simp add: power_add)
  have Q: "6 * 2 ^ Suc i = 2 * ?Q" by simp
  have p: "(2 :: int) ^ (Suc i + 3) = 4 * ?u" "(2 :: int) ^ (Suc i + 2) = 2 * ?u"
    by (simp_all add: power_add)
  show ?case
    unfolding Q p Fib_double_int Fib_double_Suc_int
    using Fib_power_two_step[OF a b u] by simp
qed


lemma Fib_minus_one_mod_4:
  assumes "(4 :: int) dvd int (Fib n) + 1"
  shows "6 dvd n + 2"
proof -
  define r where "r = n mod 6"
  have n: "n = r + (n div 6) * 6" by (simp add: r_def)
  have "Fib 6 = 8" by (rule Fib_5_6)
  moreover have "Fib (Suc 6) = 13" using Fib_5_6 by (simp add: eval_nat_numeral)
  ultimately have "(4 :: int) dvd int (Fib 6)" "(4 :: int) dvd int (Fib (Suc 6)) - 1" by simp_all
  hence "(4 :: int) dvd int (Fib (r + (n div 6) * 6)) - int (Fib r)"
    by (rule Fib_periodic_mult)
  hence "(4 :: int) dvd int (Fib n) - int (Fib r)" using n by simp
  hence "(4 :: int) dvd (int (Fib n) + 1) - (int (Fib n) - int (Fib r))"
    using assms by (rule dvd_diff[rotated])
  hence d: "(4 :: int) dvd int (Fib r) + 1" by (simp add: add.commute)
  have "r < 6" by (simp add: r_def)
  then consider "r = 0" | "r = 1" | "r = 2" | "r = 3" | "r = 4" | "r = 5" by linarith
  hence "r = 4"
  proof cases
    case 1 thus ?thesis using d by simp
  next
    case 2 thus ?thesis using d by simp
  next
    case 3 thus ?thesis using d by (simp add: eval_nat_numeral)
  next
    case 4 thus ?thesis using d by (simp add: eval_nat_numeral)
  next
    case 5 thus ?thesis by simp
  next
    case 6 thus ?thesis using d Fib_5_6 by simp
  qed
  hence "n mod 6 = 4" by (simp add: r_def)
  thus ?thesis by presburger
qed

lemma Fib_minus_one_unique:
  "(2 :: int) ^ (i + 2) dvd int (Fib n) + 1 \<Longrightarrow> 6 * 2 ^ i dvd n + 2"
proof (induction i arbitrary: n)
  case 0
  thus ?case using Fib_minus_one_mod_4[of n] by simp
next
  case (Suc i)
  let ?Q = "6 * 2 ^ i :: nat"
  let ?M = "2 ^ (i + 3) :: int"
  have "Suc i + 2 = i + 3" by simp
  hence M: "?M dvd int (Fib n) + 1" using Suc.prems by (simp only:)
  have "(2 :: int) ^ (i + 2) dvd ?M" by (simp add: power_add)
  hence "(2 :: int) ^ (i + 2) dvd int (Fib n) + 1" using M by (rule dvd_trans)
  hence "?Q dvd n + 2" by (rule Suc.IH)
  then obtain q where q: "n + 2 = ?Q * q" by (auto simp: dvd_def)
  show ?case
  proof (cases "even q")
    case True
    then obtain q' where "q = 2 * q'" by (auto elim: evenE)
    hence "n + 2 = (6 * 2 ^ Suc i) * q'" using q by simp
    thus ?thesis by (simp only: dvd_triv_left)
  next
    case False
    then obtain q' where q': "q = 2 * q' + 1" by (auto elim: oddE)
    have "2 \<le> ?Q" by simp
    then obtain k where k: "?Q = Suc (Suc k)" by (metis add_2_eq_Suc le_Suc_ex)
    have n: "n = k + q' * (6 * 2 ^ Suc i)" using q q' k by (simp add: algebra_simps)
    have p1: "?M dvd int (Fib (6 * 2 ^ Suc i))"
      and p2: "?M dvd int (Fib (Suc (6 * 2 ^ Suc i))) - 1"
    proof -
      have a: "?M * 2 dvd int (Fib (6 * 2 ^ Suc i))"
        and b: "?M * 2 dvd int (Fib (Suc (6 * 2 ^ Suc i))) - 1 - ?M"
        using Fib_power_two[of "Suc i"] by (simp_all add: power_add mult.commute)
      show "?M dvd int (Fib (6 * 2 ^ Suc i))" using a by (rule dvd_mult_left)
      have "?M dvd int (Fib (Suc (6 * 2 ^ Suc i))) - 1 - ?M" using b by (rule dvd_mult_left)
      hence "?M dvd (int (Fib (Suc (6 * 2 ^ Suc i))) - 1 - ?M) + ?M" by (rule dvd_add) simp
      thus "?M dvd int (Fib (Suc (6 * 2 ^ Suc i))) - 1" by simp
    qed
    have "?M dvd int (Fib (k + q' * (6 * 2 ^ Suc i))) - int (Fib k)"
      by (rule Fib_periodic_mult[OF p1 p2])
    hence "?M dvd int (Fib n) - int (Fib k)" using n by simp
    hence "?M dvd (int (Fib n) + 1) - (int (Fib n) - int (Fib k))"
      using M by (rule dvd_diff[rotated])
    hence k1: "?M dvd int (Fib k) + 1" by (simp add: add.commute)
    have c1: "?M dvd int (Fib ?Q)"
      and c2: "?M dvd int (Fib (Suc ?Q)) - 1 - 2 ^ (i + 2)"
      using Fib_power_two[of i] by simp_all
    have "int (Fib k) + 1 = 2 * int (Fib ?Q) - (int (Fib (Suc ?Q)) - 1 - 2 ^ (i + 2)) - 2 ^ (i + 2)"
      unfolding k by simp
    moreover have t1: "?M dvd 2 * int (Fib ?Q)" using c1 by (rule dvd_mult)
    moreover have t2: "?M dvd 2 * int (Fib ?Q) - (int (Fib (Suc ?Q)) - 1 - 2 ^ (i + 2))"
      using t1 c2 by (rule dvd_diff)
    ultimately have "?M dvd (2 * int (Fib ?Q) - (int (Fib (Suc ?Q)) - 1 - 2 ^ (i + 2))) - (int (Fib k) + 1)"
      using k1 by (intro dvd_diff[OF t2])
    hence "?M dvd (2 :: int) ^ (i + 2)" using \<open>int (Fib k) + 1 = _\<close> by simp
    hence "?M \<le> (2 :: int) ^ (i + 2)" by (rule zdvd_imp_le) simp
    hence False by (simp add: power_add)
    thus ?thesis ..
  qed
qed

lemma Fib_not_minus_one_64:
  assumes "n < 2 ^ 31"
  shows "(word_of_nat (Fib n) :: long_long) \<noteq> - 1"
proof
  assume "(word_of_nat (Fib n) :: long_long) = - 1"
  hence "(word_of_int (int (Fib n)) :: long_long) = word_of_int (- 1)" by simp
  hence "take_bit 64 (int (Fib n)) = take_bit 64 (- 1 :: int)"
    by (simp only: word_of_int_eq_iff len_bit0 len_num1 mult_1_right) simp
  hence "int (Fib n) mod 2 ^ 64 = (- 1) mod 2 ^ 64" by (simp only: take_bit_eq_mod)
  hence "(2 :: int) ^ 64 dvd int (Fib n) - (- 1)" by (simp only: mod_eq_dvd_iff)
  hence d: "(2 :: int) ^ 64 dvd int (Fib n) + 1" by simp
  have "(2 :: int) ^ (30 + 2) dvd 2 ^ 64" by (intro le_imp_power_dvd) simp
  hence "(2 :: int) ^ (30 + 2) dvd int (Fib n) + 1" using d by (rule dvd_trans)
  hence "6 * 2 ^ 30 dvd n + 2" by (rule Fib_minus_one_unique)
  hence "6 * 2 ^ 30 \<le> n + 2" by (rule dvd_imp_le) simp
  thus False using assms by simp
qed

section \<open>Properties of the driver\<close>

lemma run_tasks_length: "length (fst (run_tasks futures w)) = length futures"
proof (induction futures arbitrary: w)
  case Nil
  show ?case by simp
next
  case (Cons j futures)
  obtain r w1 where e1: "fibonacci_cpp j w = (r, w1)" by (cases "fibonacci_cpp j w")
  obtain rs w2 where e2: "run_tasks futures w1 = (rs, w2)" by (cases "run_tasks futures w1")
  show ?case using Cons.IH[of w1] e1 e2 by simp
qed

lemma run_tasks_nth:
  "i < length futures \<Longrightarrow>
     fst (run_tasks futures w) ! i = fst (fibonacci_cpp (futures ! i) (snd (run_tasks (take i futures) w)))"
proof (induction futures arbitrary: w i)
  case Nil
  thus ?case by simp
next
  case (Cons j futures)
  obtain r w1 where e1: "fibonacci_cpp j w = (r, w1)" by (cases "fibonacci_cpp j w")
  obtain rs w2 where e2: "run_tasks futures w1 = (rs, w2)" by (cases "run_tasks futures w1")
  show ?case
  proof (cases i)
    case 0
    thus ?thesis using e1 e2 by simp
  next
    case (Suc k)
    hence k: "k < length futures" using Cons.prems by simp
    obtain rs' w3 where e3: "run_tasks (take k futures) w1 = (rs', w3)"
      by (cases "run_tasks (take k futures) w1")
    have "rs ! k = fst (fibonacci_cpp (futures ! k) w3)"
      using Cons.IH[OF k, of w1] e2 e3 by simp
    thus ?thesis using Suc e1 e2 e3 by simp
  qed
qed

text \<open>
  From a cache that satisfies the invariant every task has the expected outcome unless a
  launch failed in it, and the batch leaves such a cache.
\<close>

lemma run_tasks_sound:
  "cache_ok (fst w) \<Longrightarrow>
     cache_ok (fst (snd (run_tasks futures w))) \<and>
     list_all2 (\<lambda>i r. r = expected i \<or> r = Inl System_Error) futures (fst (run_tasks futures w))"
proof (induction futures arbitrary: w)
  case Nil
  thus ?case by simp
next
  case (Cons i futures)
  obtain r w1 where e1: "fibonacci_cpp i w = (r, w1)" by (cases "fibonacci_cpp i w")
  have h1: "cache_ok (fst w1)" "r = expected i \<or> r = Inl System_Error"
    using fibonacci_cpp_sound[OF Cons.prems, of i] e1 by simp_all
  obtain rs w2 where e2: "run_tasks futures w1 = (rs, w2)" by (cases "run_tasks futures w1")
  have h2: "cache_ok (fst w2)" "list_all2 (\<lambda>i r. r = expected i \<or> r = Inl System_Error) futures rs"
    using Cons.IH[OF h1(1)] e2 by simp_all
  show ?case using e1 e2 h1 h2 by simp
qed

text \<open>When every launch succeeds, every task has the expected outcome.\<close>

lemma run_tasks_launched:
  "cache_ok c \<Longrightarrow>
     fst (run_tasks futures (c, [])) = map expected futures \<and>
     snd (snd (run_tasks futures (c, []))) = []"
proof (induction futures arbitrary: c)
  case Nil
  thus ?case by simp
next
  case (Cons i futures)
  obtain r c1 ls1 where e1: "fibonacci_cpp i (c, []) = (r, (c1, ls1))"
    by (cases "fibonacci_cpp i (c, [])") auto
  have r: "r = expected i" using fibonacci_cpp_expected[OF Cons.prems, of i] e1 by simp
  have l: "ls1 = []" using fibonacci_cpp_launched[of "(c, [])" i] e1 by simp
  have ok: "cache_ok c1" using fibonacci_cpp_sound[of "(c, [])" i] Cons.prems e1 by simp
  obtain rs w2 where e2: "run_tasks futures (c1, []) = (rs, w2)"
    by (cases "run_tasks futures (c1, [])")
  have h2: "rs = map expected futures" "snd w2 = []" using Cons.IH[OF ok] e2 by simp_all
  show ?case using e1 e2 r l h2 by simp
qed

lemma run_tasks_map_le: "fst w \<subseteq>\<^sub>m fst (snd (run_tasks futures w))"
proof (induction futures arbitrary: w)
  case Nil
  show ?case by simp
next
  case (Cons i futures)
  obtain r w1 where e1: "fibonacci_cpp i w = (r, w1)" by (cases "fibonacci_cpp i w")
  obtain rs w2 where e2: "run_tasks futures w1 = (rs, w2)" by (cases "run_tasks futures w1")
  have "fst w \<subseteq>\<^sub>m fst w1" using fibonacci_cpp_map_le[of w i] e1 by simp
  moreover have "fst w1 \<subseteq>\<^sub>m fst w2" using Cons.IH[of w1] e2 by simp
  ultimately have "fst w \<subseteq>\<^sub>m fst w2" by (rule map_le_trans)
  thus ?case using e1 e2 by simp
qed

text \<open>No task with a non-negative argument ends with \<open>std::invalid_argument\<close>.\<close>

lemma run_tasks_outcome:
  "\<forall>i \<in> set futures. \<not> i <s 0 \<Longrightarrow>
     \<forall>r \<in> set (fst (run_tasks futures w)). \<not> isl r \<or> r = Inl System_Error"
proof (induction futures arbitrary: w)
  case Nil
  thus ?case by simp
next
  case (Cons j futures)
  obtain r w1 where e1: "fibonacci_cpp j w = (r, w1)" by (cases "fibonacci_cpp j w")
  obtain rs w2 where e2: "run_tasks futures w1 = (rs, w2)" by (cases "run_tasks futures w1")
  have "\<not> j <s 0" using Cons.prems by simp
  hence "\<not> isl r \<or> r = Inl System_Error" using fibonacci_cpp_outcome[of j w] e1 by auto
  moreover have "\<forall>r \<in> set rs. \<not> isl r \<or> r = Inl System_Error"
    using Cons.IH[of w1] Cons.prems e2 by simp
  ultimately show ?case using e1 e2 by simp
qed

lemma collect_results:
  "fst (collect outcomes rs out) = rs @ map (\<lambda>r. case r of Inl e \<Rightarrow> - 1 | Inr v \<Rightarrow> v) outcomes"
  by (induction outcomes rs out rule: collect.induct) simp_all

lemma collect_printed:
  "snd (collect outcomes rs out) =
     out @ concat (map (\<lambda>r. case r of Inl e \<Rightarrow> [Cerr_exception_caught (what e)] | Inr v \<Rightarrow> []) outcomes)"
  by (induction outcomes rs out rule: collect.induct) simp_all

lemma sint_succ:
  fixes i :: cpp_int
  assumes "sint i < 2 ^ 31 - 1"
  shows "sint (i + 1) = sint i + 1"
proof -
  have l: "- (2 ^ 31) \<le> sint i" using sint_ge[of i] by simp
  have "sint (i + 1) = signed_take_bit 31 (sint i + 1)" by (simp add: sint_word_ariths)
  also have "\<dots> = sint i + 1" using assms l by (simp add: signed_take_bit_int_eq_self)
  finally show ?thesis .
qed

text \<open>The first loop when its launches succeed, and when one of them fails.\<close>

lemma spawn_loop_launches:
  assumes "sint maxN < 2 ^ 31 - 1" "\<forall>b \<in> set (take (nat (sint maxN + 1 - sint i)) ls). b"
  shows "spawn_loop maxN i futures ls =
           Some (Inr (futures @ map word_of_int [sint i..sint maxN]),
                 drop (nat (sint maxN + 1 - sint i)) ls)"
  using assms
proof (induction "nat (sint maxN + 1 - sint i)" arbitrary: i futures ls)
  case 0
  hence "\<not> i \<le>s maxN" by (simp add: word_sle_eq)
  moreover have "[sint i..sint maxN] = []" using 0 by simp
  ultimately show ?case using 0(1)[symmetric] by (simp add: spawn_loop.simps[of maxN i])
next
  case (Suc k)
  hence le: "i \<le>s maxN" by (simp add: word_sle_eq)
  hence "sint i \<le> sint maxN" by (simp add: word_sle_eq)
  hence si: "sint (i + 1) = sint i + 1" using Suc.prems by (intro sint_succ) simp
  have k: "k = nat (sint maxN + 1 - sint (i + 1))" using Suc.hyps(2) si by simp
  obtain started ls1 where a: "std_async ls = (started, ls1)" by (cases "std_async ls")
  have st: "started" and tk: "\<forall>b \<in> set (take k ls1). b" and dr: "drop k ls1 = drop (Suc k) ls"
    using a Suc.prems(2) Suc.hyps(2)[symmetric] by (cases ls; simp)+
  have "spawn_loop maxN (i + 1) (futures @ [i]) ls1
          = Some (Inr ((futures @ [i]) @ map word_of_int [sint i + 1..sint maxN]), drop k ls1)"
    using Suc.hyps(1)[OF k Suc.prems(1), of ls1 "futures @ [i]"] tk k by (simp add: si)
  moreover have "[sint i..sint maxN] = sint i # [sint i + 1..sint maxN]"
    using \<open>sint i \<le> sint maxN\<close> by (rule upto_rec1)
  ultimately show ?case using le a st dr Suc.hyps(2)[symmetric]
    by (simp add: spawn_loop.simps[of maxN i])
qed

lemma spawn_loop_fails:
  assumes "sint i + int j \<le> sint maxN"
  shows "spawn_loop maxN i futures (replicate j True @ False # ls) = Some (Inl System_Error, ls)"
  using assms
proof (induction j arbitrary: i futures)
  case 0
  hence "i \<le>s maxN" by (simp add: word_sle_eq)
  thus ?case by (simp add: spawn_loop.simps[of maxN i])
next
  case (Suc j)
  hence le: "i \<le>s maxN" by (simp add: word_sle_eq)
  have "sint i < 2 ^ 31 - 1" using Suc.prems sint_lt[of maxN] by simp
  hence si: "sint (i + 1) = sint i + 1" by (rule sint_succ)
  have "spawn_loop maxN (i + 1) (futures @ [i]) (replicate j True @ False # ls)
          = Some (Inl System_Error, ls)"
    using Suc.IH[of "i + 1" "futures @ [i]"] Suc.prems si by simp
  thus ?case using le by (simp add: spawn_loop.simps[of maxN i])
qed

text \<open>What the first loop has launched when it ends without an exception.\<close>

lemma spawn_loop_futures:
  assumes "spawn_loop maxN i futures ls = Some (Inr fs, ls1)"
  shows "sint maxN < 2 ^ 31 - 1 \<and> fs = futures @ map word_of_int [sint i..sint maxN] \<and>
         ls1 = drop (length fs - length futures) ls"
proof -
  let ?P = "\<lambda>(maxN :: cpp_int) (i :: cpp_int) (futures :: cpp_int list) (ls :: bool list)
              (r :: (exn + cpp_int list) \<times> bool list).
              \<forall>fs ls1. r = (Inr fs, ls1) \<longrightarrow>
                sint maxN < 2 ^ 31 - 1 \<and> fs = futures @ map word_of_int [sint i..sint maxN] \<and>
                ls1 = drop (length fs - length futures) ls"
  have "?P maxN i futures ls (Inr fs, ls1)"
  proof (rule spawn_loop.raw_induct[where P = ?P, OF _ assms])
    fix loop maxN i futures ls r
    assume IH: "\<And>maxN i futures ls r. loop maxN i futures ls = Some r \<Longrightarrow> ?P maxN i futures ls r"
      and eq: "(if i \<le>s maxN then
                  (case std_async ls of (started, ls1) \<Rightarrow>
                     if started then loop maxN (i + 1) (futures @ [i]) ls1
                     else Some (Inl System_Error, ls1))
                else Some (Inr futures, ls)) = Some r"
    show "?P maxN i futures ls r"
    proof (cases "i \<le>s maxN")
      case False
      hence "sint maxN < sint i" by (simp add: word_sle_eq)
      moreover have "sint i \<le> 2 ^ 31 - 1" using sint_lt[of i] by simp
      ultimately show ?thesis using False eq by auto
    next
      case True
      obtain started ls' where a: "std_async ls = (started, ls')" by (cases "std_async ls")
      show ?thesis
      proof (cases started)
        case False
        thus ?thesis using True a eq by auto
      next
        case st: True
        hence e: "loop maxN (i + 1) (futures @ [i]) ls' = Some r" using True a eq by simp
        show ?thesis
        proof (intro allI impI)
          fix fs ls1
          assume r: "r = (Inr fs, ls1)"
          have h: "sint maxN < 2 ^ 31 - 1"
            "fs = (futures @ [i]) @ map word_of_int [sint (i + 1)..sint maxN]"
            "ls1 = drop (length fs - length (futures @ [i])) ls'"
            using IH[OF e] r by blast+
          have le: "sint i \<le> sint maxN" using True by (simp add: word_sle_eq)
          hence si: "sint (i + 1) = sint i + 1" using h(1) by (intro sint_succ) simp
          have u: "[sint i..sint maxN] = sint i # [sint i + 1..sint maxN]"
            using le by (rule upto_rec1)
          have f: "fs = futures @ map word_of_int [sint i..sint maxN]"
            using h(2) by (simp add: si u)
          have "length fs - length futures = Suc (length fs - length (futures @ [i]))"
            using h(2) by simp
          hence "drop (length fs - length futures) ls = drop (length fs - length (futures @ [i])) ls'"
            using a st by (cases ls) auto
          thus "sint maxN < 2 ^ 31 - 1 \<and> fs = futures @ map word_of_int [sint i..sint maxN] \<and>
                ls1 = drop (length fs - length futures) ls"
            using h(1,3) f by simp
        qed
      qed
    qed
  qed
  thus ?thesis by simp
qed

lemma sint_word_of_int_small:
  assumes "0 \<le> j" "j < 2 ^ 31"
  shows "sint (word_of_int j :: cpp_int) = j"
proof -
  have "sint (word_of_int j :: cpp_int) = signed_take_bit 31 j" by (simp add: signed_of_int)
  also have "\<dots> = j" using assms by (simp add: signed_take_bit_int_eq_self)
  finally show ?thesis .
qed

lemma futures_nonneg:
  assumes "sint (maxN :: cpp_int) < 2 ^ 31 - 1"
  shows "\<forall>i \<in> set (map word_of_int [0..sint maxN] :: cpp_int list). \<not> i <s 0"
proof
  fix i :: cpp_int
  assume "i \<in> set (map word_of_int [0..sint maxN])"
  then obtain j where j: "i = word_of_int j" "0 \<le> j" "j \<le> sint maxN" by auto
  hence "sint i = j" using assms by (simp add: sint_word_of_int_small)
  thus "\<not> i <s 0" using j(2) by (simp add: word_sless_alt)
qed

lemma expected_upto:
  assumes "sint (maxN :: cpp_int) < 2 ^ 31 - 1"
  shows "map expected (map word_of_int [0..sint maxN]) = map (\<lambda>j. Inr (Fib64 (word_of_int j))) [0..sint maxN]"
proof -
  have "expected (word_of_int j) = Inr (Fib64 (word_of_int j))" if "j \<in> set [0..sint maxN]" for j
  proof -
    have "0 \<le> j" "j < 2 ^ 31" using that assms by simp_all
    hence "sint (word_of_int j :: cpp_int) = j" by (rule sint_word_of_int_small)
    thus ?thesis using \<open>0 \<le> j\<close> by (simp add: expected_def word_sless_alt)
  qed
  thus ?thesis by simp
qed

lemma futures_length:
  assumes "\<not> (maxN :: cpp_int) <s 0"
  shows "length (map word_of_int [0..sint maxN] :: cpp_int list) = nat (sint maxN) + 1"
  using assms by (simp add: word_sless_alt)

lemma futures_nth:
  assumes "sint (maxN :: cpp_int) < 2 ^ 31 - 1" "int i \<le> sint maxN"
  shows "(map word_of_int [0..sint maxN] :: cpp_int list) ! i = word_of_nat i"
    and "sint (word_of_nat i :: cpp_int) = int i"
proof -
  have "i < length [0..sint maxN]" using assms(2) by simp
  hence "(map word_of_int [0..sint maxN] :: cpp_int list) ! i = word_of_int ([0..sint maxN] ! i)"
    by (rule nth_map)
  also have "[0..sint maxN] ! i = int i" using assms(2) by simp
  finally show "(map word_of_int [0..sint maxN] :: cpp_int list) ! i = word_of_nat i" by simp
  show "sint (word_of_nat i :: cpp_int) = int i"
    using sint_word_of_int_small[of "int i"] assms by simp
qed

text \<open>
  The driver when its first loop has launched the tasks: it returns, with one entry per
  task, in launch order.
\<close>

lemma driver_collects:
  assumes sp: "spawn_loop maxN 0 [] ls = Some (Inr futures, ls1)" and nn: "\<not> maxN <s 0"
  shows "calculateConcurrentFibonacci_cpp maxN numThreads (c, ls) =
           Some (Inr \<lparr>printed = [Cout_banner, Cout_calculating maxN numThreads] @
                                concat (map (\<lambda>r. case r of Inl e \<Rightarrow> [Cerr_exception_caught (what e)]
                                                  | Inr v \<Rightarrow> [])
                                          (fst (run_tasks futures (c, ls1)))) @
                                [Cout_total_time maxN, Cout_complete],
                      results = map (\<lambda>r. case r of Inl e \<Rightarrow> - 1 | Inr v \<Rightarrow> v)
                                  (fst (run_tasks futures (c, ls1))),
                      fib_cache = fst (snd (run_tasks futures (c, ls1)))\<rparr>)"
proof -
  have lt: "sint maxN < 2 ^ 31 - 1" using spawn_loop_futures[OF sp] by simp
  obtain outcomes c' ls' where rt: "run_tasks futures (c, ls1) = (outcomes, (c', ls'))"
    by (cases "run_tasks futures (c, ls1)") auto
  have "0 \<le> sint maxN" using nn by (simp add: word_sless_alt)
  hence res: "\<not> maxN + 1 <s 0" using sint_succ[OF lt] by (simp add: word_sless_alt)
  obtain rs pr where co: "collect outcomes [] [Cout_banner, Cout_calculating maxN numThreads] = (rs, pr)"
    by (cases "collect outcomes [] [Cout_banner, Cout_calculating maxN numThreads]")
  have rs: "rs = map (\<lambda>r. case r of Inl e \<Rightarrow> - 1 | Inr v \<Rightarrow> v) outcomes"
    using collect_results[of outcomes "[]" "[Cout_banner, Cout_calculating maxN numThreads]"] co
    by simp
  have pr: "pr = [Cout_banner, Cout_calculating maxN numThreads] @
                 concat (map (\<lambda>r. case r of Inl e \<Rightarrow> [Cerr_exception_caught (what e)] | Inr v \<Rightarrow> []) outcomes)"
    using collect_printed[of outcomes "[]" "[Cout_banner, Cout_calculating maxN numThreads]"] co
    by simp
  show ?thesis
    using sp rt res co rs pr by (simp add: calculateConcurrentFibonacci_cpp_def)
qed

text \<open>A launch that fails in the first loop leaves the driver with the exception.\<close>

lemma driver_aborts:
  assumes "spawn_loop maxN 0 [] ls = Some (Inl e, ls1)"
  shows "calculateConcurrentFibonacci_cpp maxN numThreads (c, ls) = Some (Inl e)"
  using assms by (simp add: calculateConcurrentFibonacci_cpp_def)

lemma driver_fails:
  assumes "int j \<le> sint maxN"
  shows "calculateConcurrentFibonacci_cpp maxN numThreads (c, replicate j True @ False # ls) =
           Some (Inl System_Error)"
  using spawn_loop_fails[of 0 j maxN "[]" ls] assms by (simp add: driver_aborts)

text \<open>The driver when every launch succeeds.\<close>

lemma driver_launched:
  assumes ok: "cache_ok c" and nn: "\<not> maxN <s 0" and lt: "sint maxN < 2 ^ 31 - 1"
  shows "calculateConcurrentFibonacci_cpp maxN numThreads (c, []) =
           Some (Inr \<lparr>printed = [Cout_banner, Cout_calculating maxN numThreads,
                                 Cout_total_time maxN, Cout_complete],
                      results = map (\<lambda>j. Fib64 (word_of_int j)) [0..sint maxN],
                      fib_cache = fst (snd (run_tasks (map word_of_int [0..sint maxN]) (c, [])))\<rparr>)"
proof -
  let ?futures = "map word_of_int [0..sint maxN] :: cpp_int list"
  have sp: "spawn_loop maxN 0 [] [] = Some (Inr ?futures, [])"
    using spawn_loop_launches[OF lt, of 0 "[]" "[]"] by simp
  have out: "fst (run_tasks ?futures (c, [])) = map (\<lambda>j. Inr (Fib64 (word_of_int j))) [0..sint maxN]"
    using run_tasks_launched[OF ok, of ?futures] expected_upto[OF lt] by simp
  show ?thesis unfolding driver_collects[OF sp nn] out by (simp add: comp_def)
qed

lemma Fib_10_table:
  "map (\<lambda>j. Fib64 (word_of_int j)) [0..sint (10 :: cpp_int)] = [0, 1, 1, 2, 3, 5, 8, 13, 21, 34, 55]"
  by (simp add: upto_rec1 Fib64_def eval_nat_numeral)

lemma Fib64_not_sentinel:
  assumes "0 \<le> j" "j < 2 ^ 31"
  shows "Fib64 (word_of_int j) \<noteq> - 1"
proof -
  have s: "sint (word_of_int j :: cpp_int) = j" by (rule sint_word_of_int_small[OF assms])
  have "nat j < 2 ^ 31" using assms by simp
  hence "(word_of_nat (Fib (nat j)) :: long_long) \<noteq> - 1" by (rule Fib_not_minus_one_64)
  thus ?thesis unfolding Fib64_def s .
qed

lemma Fib64_nonneg_not_sentinel:
  assumes "\<not> n <s 0"
  shows "Fib64 n \<noteq> - 1"
proof -
  have "0 \<le> sint n" "sint n < 2 ^ 31" using assms sint_lt[of n] by (simp_all add: word_sless_alt)
  hence "Fib64 (word_of_int (sint n)) \<noteq> - 1" by (rule Fib64_not_sentinel)
  thus ?thesis by simp
qed

subsection \<open>Calls on a warm cache\<close>

lemma warm_unchanged:
  assumes "n = 0 \<or> n = 1 \<or> c n \<noteq> None"
  shows "snd (fibonacci_cpp n (c, ls)) = (c, ls)"
  using assms by (auto simp: fibonacci_cpp.simps[of n c ls])

lemma warm_stable:
  assumes nn: "\<not> n <s 0" and warm: "n = 0 \<or> n = 1 \<or> c n \<noteq> None" and le: "c \<subseteq>\<^sub>m c'"
  shows "fst (fibonacci_cpp n (c', ls')) = fst (fibonacci_cpp n (c, ls))"
proof (cases "n = 0 \<or> n = 1")
  case True
  thus ?thesis by (auto simp: fibonacci_cpp_0 fibonacci_cpp_1)
next
  case False
  then obtain v where v: "c n = Some v" using warm by auto
  hence "c' n = Some v" using le by (auto simp: map_le_def dom_def)
  thus ?thesis
    using v False nn fibonacci_cpp_hit[of n c v ls] fibonacci_cpp_hit[of n c' v ls'] by simp
qed

lemma run_tasks_replicate_warm:
  assumes "snd (fibonacci_cpp n w) = w"
  shows "run_tasks (replicate k n) w = (replicate k (fst (fibonacci_cpp n w)), w)"
proof (induction k)
  case 0
  show ?case by simp
next
  case (Suc k)
  define r where "r = fst (fibonacci_cpp n w)"
  have e: "fibonacci_cpp n w = (r, w)" using assms by (simp add: r_def prod_eq_iff)
  have "run_tasks (replicate k n) w = (replicate k r, w)" using Suc by (simp add: r_def)
  hence "run_tasks (replicate (Suc k) n) w = (replicate (Suc k) r, w)" using e by simp
  thus ?case by (simp add: r_def)
qed

section \<open>Properties of the interleaving semantics\<close>

text \<open>
  Every step keeps the cache invariant and the invariant of the task, and only adds entries
  to the cache, whether its launches succeed or fail.
\<close>

lemma step_preserves:
  "step c t c' t' \<Longrightarrow> cache_ok c \<Longrightarrow> computes n t \<Longrightarrow>
     cache_ok c' \<and> c \<subseteq>\<^sub>m c' \<and> computes n t'"
proof (induction arbitrary: n rule: step.induct)
  case (throw m c)
  thus ?case by (simp add: expected_def)
next
  case (base0 c)
  thus ?case by (auto simp: expected_0)
next
  case (base1 c)
  thus ?case by (auto simp: expected_1)
next
  case (hit m c v)
  hence "v = Fib64 m" by (simp add: cache_ok_def)
  thus ?case using hit by (auto simp: expected_def)
next
  case (miss m c)
  thus ?case by auto
next
  case (launch c m)
  thus ?case by auto
next
  case (launch1_fails c m)
  thus ?case by auto
next
  case (launch2_fails c m)
  thus ?case by auto
next
  case (left c t1 c' t1' m t2)
  thus ?case by auto
next
  case (right c t2 c' t2' m t1)
  thus ?case by auto
next
  case (store c m a b)
  hence mn: "m = n" and nn: "\<not> n <s 0" and n01: "n \<noteq> 0" "n \<noteq> 1"
    and a: "Inr a = expected (n - 1)" and b: "Inr b = expected (n - 2)" by simp_all
  have "a = Fib64 (n - 1)" using a pred_nonneg[OF nn n01(1)] by (simp add: expected_def)
  moreover have "b = Fib64 (n - 2)" using b pred2_nonneg[OF nn n01] by (simp add: expected_def)
  ultimately have s: "a + b = Fib64 n" using Fib64_rec[OF nn n01] by simp
  have ok: "cache_ok (c(n \<mapsto> Fib64 n))" by (rule cache_ok_upd[OF store.prems(1) nn])
  have "c n = None \<or> c n = Some (Fib64 n)" using store.prems(1) by (cases "c n") (auto simp: cache_ok_def)
  hence le: "c \<subseteq>\<^sub>m c(n \<mapsto> Fib64 n)" by (auto simp: map_le_def)
  have ex: "Inr (Fib64 n) = expected n" using nn by (simp add: expected_def)
  show ?case unfolding mn s computes.simps using ok le ex by blast
next
  case (rethrow1 c m e r)
  hence nn: "\<not> n <s 0" and n01: "n \<noteq> 0" "n \<noteq> 1"
    and a: "Inl e = expected (n - 1) \<or> e = System_Error" by simp_all
  thus ?case using pred_nonneg[OF nn n01(1)] rethrow1.prems(1) by (auto simp: expected_def)
next
  case (rethrow2 c m r e)
  hence nn: "\<not> n <s 0" and n01: "n \<noteq> 0" "n \<noteq> 1"
    and a: "Inl e = expected (n - 2) \<or> e = System_Error" by simp_all
  thus ?case using pred2_nonneg[OF nn n01] rethrow2.prems(1) by (auto simp: expected_def)
next
  case (unwind c t1 c' t1' m)
  thus ?case by auto
next
  case (unwound c m r)
  thus ?case by auto
qed

lemma steps_preserves:
  "steps c t c' t' \<Longrightarrow> cache_ok c \<Longrightarrow> computes n t \<Longrightarrow>
     cache_ok c' \<and> c \<subseteq>\<^sub>m c' \<and> computes n t'"
proof (induction rule: steps.induct)
  case (refl c t)
  thus ?case by simp
next
  case (step c t c1 t1 c' t')
  have 1: "cache_ok c1 \<and> c \<subseteq>\<^sub>m c1 \<and> computes n t1"
    using step_preserves[OF step.hyps(1) step.prems] .
  hence 2: "cache_ok c' \<and> c1 \<subseteq>\<^sub>m c' \<and> computes n t'" using step.IH by simp
  show ?case using 1 2 map_le_trans by blast
qed

lemma pool_step_preserves:
  assumes "pool_step c ts c' ts'" "cache_ok c" "list_all2 computes ns ts"
  shows "cache_ok c' \<and> c \<subseteq>\<^sub>m c' \<and> list_all2 computes ns ts'"
  using assms
proof (induction rule: pool_step.induct)
  case (1 c t c' t' ts us)
  from "1.prems"(2) obtain ms n ks where ns: "ns = ms @ n # ks"
      and a: "list_all2 computes ms ts" and b: "computes n t" and d: "list_all2 computes ks us"
    by (auto simp: list_all2_append2 list_all2_Cons2)
  have "cache_ok c' \<and> c \<subseteq>\<^sub>m c' \<and> computes n t'"
    by (rule step_preserves[OF "1.hyps" "1.prems"(1) b])
  thus ?case using ns a d by (auto intro!: list_all2_appendI)
qed

lemma pool_steps_preserves:
  "pool_steps c ts c' ts' \<Longrightarrow> cache_ok c \<Longrightarrow> list_all2 computes ns ts \<Longrightarrow>
     cache_ok c' \<and> c \<subseteq>\<^sub>m c' \<and> list_all2 computes ns ts'"
proof (induction rule: pool_steps.induct)
  case (refl c ts)
  thus ?case by simp
next
  case (step c ts c1 ts1 c' ts')
  have 1: "cache_ok c1 \<and> c \<subseteq>\<^sub>m c1 \<and> list_all2 computes ns ts1"
    using pool_step_preserves[OF step.hyps(1) step.prems] .
  hence 2: "cache_ok c' \<and> c1 \<subseteq>\<^sub>m c' \<and> list_all2 computes ns ts'" using step.IH by simp
  show ?case using 1 2 map_le_trans by blast
qed

lemma computes_Call: "list_all2 computes ns (map Call ns)"
  by (induction ns) simp_all

text \<open>A task that has not finished can take a step: no run is stuck.\<close>

lemma progress: "(\<exists>r. t = Finished r) \<or> (\<exists>c' t'. step c t c' t')"
proof (induction t)
  case (Call n)
  consider "n <s 0" | "n = 0" | "n = 1" | v where "\<not> n <s 0" "n \<noteq> 0" "n \<noteq> 1" "c n = Some v"
    | "\<not> n <s 0" "n \<noteq> 0" "n \<noteq> 1" "c n = None"
    by (cases "c n") auto
  thus ?case
  proof cases
    case 1 thus ?thesis using step.throw by blast
  next
    case 2 thus ?thesis using step.base0 by blast
  next
    case 3 thus ?thesis using step.base1 by blast
  next
    case 4 thus ?thesis using step.hit by blast
  next
    case 5 thus ?thesis using step.miss by blast
  qed
next
  case (Unlocked n)
  show ?case using step.launch by blast
next
  case (Awaiting n t1 t2)
  show ?case
  proof (cases "\<exists>c' t'. step c t1 c' t'")
    case True
    thus ?thesis using step.left by blast
  next
    case False
    then obtain r1 where r1: "t1 = Finished r1" using Awaiting.IH(1) by blast
    show ?thesis
    proof (cases "\<exists>c' t'. step c t2 c' t'")
      case True
      thus ?thesis using step.right by blast
    next
      case False
      then obtain r2 where r2: "t2 = Finished r2" using Awaiting.IH(2) by blast
      show ?thesis
      proof (cases r1)
        case (Inl e)
        thus ?thesis using r1 r2 step.rethrow1 by blast
      next
        case a: (Inr a)
        show ?thesis
        proof (cases r2)
          case (Inl e)
          thus ?thesis using r1 r2 step.rethrow2 by blast
        next
          case (Inr b)
          thus ?thesis using a r1 r2 step.store by blast
        qed
      qed
    qed
  qed
next
  case (Unwinding n t1)
  show ?case
  proof (cases "\<exists>c' t'. step c t1 c' t'")
    case True
    thus ?thesis using step.unwind by blast
  next
    case False
    then obtain r1 where "t1 = Finished r1" using Unwinding.IH by blast
    thus ?thesis using step.unwound by blast
  qed
next
  case (Finished r)
  show ?case by simp
qed

lemma work_call_pos: "0 < work_call n"
  by (simp add: work_call.simps[of n])

lemma step_decreases: "step c t c' t' \<Longrightarrow> work t' < work t"
proof (induction rule: step.induct)
  case (miss n c)
  thus ?case by (simp add: work_call.simps[of n])
qed (simp_all add: work_call_pos)

lemma steps_trans: "steps c t c1 t1 \<Longrightarrow> steps c1 t1 c' t' \<Longrightarrow> steps c t c' t'"
  by (induction rule: steps.induct) (auto intro: steps.step)

lemma steps_single: "step c t c' t' \<Longrightarrow> steps c t c' t'"
  by (blast intro: steps.intros)

lemma steps_left: "steps c t1 c' t1' \<Longrightarrow> steps c (Awaiting n t1 t2) c' (Awaiting n t1' t2)"
  by (induction rule: steps.induct) (auto intro: steps.intros step.left)

lemma steps_right: "steps c t2 c' t2' \<Longrightarrow> steps c (Awaiting n t1 t2) c' (Awaiting n t1 t2')"
  by (induction rule: steps.induct) (auto intro: steps.intros step.right)

lemma steps_unwind: "steps c t1 c' t1' \<Longrightarrow> steps c (Unwinding n t1) c' (Unwinding n t1')"
  by (induction rule: steps.induct) (auto intro: steps.intros step.unwind)

text \<open>
  The solver as a function is one of the runs of the interleaving semantics, whatever the
  environment does to its launches.
\<close>

lemma fibonacci_cpp_is_a_schedule:
  "steps (fst w) (Call n) (fst (snd (fibonacci_cpp n w))) (Finished (fst (fibonacci_cpp n w)))"
proof (induction n w rule: fibonacci_cpp_induct)
  case (return n c ls)
  consider "n <s 0" | "n = 0" | "n = 1" | v where "\<not> n <s 0" "n \<noteq> 0" "n \<noteq> 1" "c n = Some v"
    using return.hyps by auto
  thus ?case
  proof cases
    case 1
    thus ?thesis using steps_single[OF step.throw[of n c]] by (simp add: fibonacci_cpp_neg)
  next
    case 2
    thus ?thesis using steps_single[OF step.base0[of c]] by (simp add: fibonacci_cpp_0)
  next
    case 3
    thus ?thesis using steps_single[OF step.base1[of c]] by (simp add: fibonacci_cpp_1)
  next
    case 4
    thus ?thesis using steps_single[OF step.hit[of n c v]] fibonacci_cpp_hit[of n c v ls] by simp
  qed
next
  case (miss n c ls)
  have m: "step c (Call n) c (Unlocked n)" by (rule step.miss[of n c, OF miss.hyps])
  from miss.hyps show ?case
  proof (cases rule: fibonacci_cpp_miss_cases[where ls = ls])
    case (fail1 ls1)
    have "steps c (Call n) c (Finished (Inl System_Error))"
      by (rule steps.step[OF m steps_single[OF step.launch1_fails]])
    thus ?thesis using fail1(2) by simp
  next
    case (fail2 ls1 ls2 r1 w1)
    have s1: "steps c (Call (n - 1)) (fst w1) (Finished r1)"
      using miss.IH(1)[of "(c, ls2)"] fail2(3) by simp
    have a: "steps c (Call n) c (Unwinding n (Call (n - 1)))"
      by (rule steps.step[OF m steps_single[OF step.launch2_fails]])
    have b: "steps c (Unwinding n (Call (n - 1))) (fst w1) (Unwinding n (Finished r1))"
      by (rule steps_unwind[OF s1])
    have d: "step (fst w1) (Unwinding n (Finished r1)) (fst w1) (Finished (Inl System_Error))"
      by (rule step.unwound)
    have "steps c (Call n) (fst w1) (Finished (Inl System_Error))"
      by (rule steps_trans[OF a steps_trans[OF b steps_single[OF d]]])
    thus ?thesis using fail2(4) by simp
  next
    case (both ls1 ls2 r1 w1 r2 c2 ls4)
    have s1: "steps c (Call (n - 1)) (fst w1) (Finished r1)"
      using miss.IH(1)[of "(c, ls2)"] both(3) by simp
    have s2: "steps (fst w1) (Call (n - 2)) c2 (Finished r2)"
      using miss.IH(2)[of w1] both(4) by simp
    have a: "steps c (Call n) c (Awaiting n (Call (n - 1)) (Call (n - 2)))"
      by (rule steps.step[OF m steps_single[OF step.launch]])
    have b: "steps c (Awaiting n (Call (n - 1)) (Call (n - 2))) (fst w1)
               (Awaiting n (Finished r1) (Call (n - 2)))"
      by (rule steps_left[OF s1])
    have d: "steps (fst w1) (Awaiting n (Finished r1) (Call (n - 2))) c2
               (Awaiting n (Finished r1) (Finished r2))"
      by (rule steps_right[OF s2])
    have f: "step c2 (Awaiting n (Finished r1) (Finished r2))
                 (fst (snd (fibonacci_cpp n (c, ls)))) (Finished (fst (fibonacci_cpp n (c, ls))))"
    proof (cases r1)
      case (Inl e)
      hence "fibonacci_cpp n (c, ls) = (Inl e, (c2, ls4))" using both(5) by simp
      thus ?thesis using Inl step.rethrow1[of c2 n e r2] by simp
    next
      case a: (Inr a)
      show ?thesis
      proof (cases r2)
        case (Inl e)
        hence "fibonacci_cpp n (c, ls) = (Inl e, (c2, ls4))" using a both(5) by simp
        thus ?thesis using a Inl step.rethrow2[of c2 n r1 e] by simp
      next
        case (Inr b)
        hence "fibonacci_cpp n (c, ls) = (Inr (a + b), (c2(n \<mapsto> a + b), ls4))"
          using a both(5) by simp
        thus ?thesis using a Inr step.store[of c2 n a b] by (simp only: fst_conv snd_conv)
      qed
    qed
    have "steps c (Call n) (fst (snd (fibonacci_cpp n (c, ls)))) (Finished (fst (fibonacci_cpp n (c, ls))))"
      by (rule steps_trans[OF a steps_trans[OF b steps_trans[OF d steps_single[OF f]]]])
    thus ?thesis by simp
  qed
qed

text \<open>Every run ends: each step lowers the bound on the work that is left.\<close>

lemma every_schedule_terminates: "wf {((c', t'), (c, t)). step c t c' t'}"
proof (rule wf_subset)
  show "wf (measure (\<lambda>(c :: cache, t). work t))" by simp
  show "{((c', t'), (c, t)). step c t c' t'} \<subseteq> measure (\<lambda>(c, t). work t)"
    by (auto dest: step_decreases)
qed

text \<open>Every finished run of a call holds the expected outcome or the exception of a launch.\<close>

lemma every_schedule_agrees:
  assumes "cache_ok c" "steps c (Call n) c' (Finished r)"
  shows "(r = expected n \<or> r = Inl System_Error) \<and> cache_ok c' \<and> c \<subseteq>\<^sub>m c'"
  using steps_preserves[OF assms(2,1), of n] by simp

lemma pool_steps_trans:
  "pool_steps c ts c1 ts1 \<Longrightarrow> pool_steps c1 ts1 c' ts' \<Longrightarrow> pool_steps c ts c' ts'"
  by (induction rule: pool_steps.induct) (auto intro: pool_steps.step)

lemma pool_steps_lift:
  "steps c t c' t' \<Longrightarrow> pool_steps c (ts @ t # us) c' (ts @ t' # us)"
  by (induction rule: steps.induct) (auto intro: pool_steps.intros pool_step.intros)

lemma run_tasks_is_a_schedule:
  "pool_steps (fst w) (map Finished done @ map Call futures)
     (fst (snd (run_tasks futures w))) (map Finished (done @ fst (run_tasks futures w)))"
proof (induction futures arbitrary: w "done")
  case Nil
  show ?case by (simp add: pool_steps.refl)
next
  case (Cons i futures)
  obtain r w1 where e1: "fibonacci_cpp i w = (r, w1)" by (cases "fibonacci_cpp i w")
  obtain rs w2 where e2: "run_tasks futures w1 = (rs, w2)" by (cases "run_tasks futures w1")
  have "steps (fst w) (Call i) (fst w1) (Finished r)"
    using fibonacci_cpp_is_a_schedule[of w i] e1 by simp
  from pool_steps_lift[OF this, of "map Finished done" "map Call futures"]
  have a: "pool_steps (fst w) (map Finished done @ map Call (i # futures))
               (fst w1) (map Finished (done @ [r]) @ map Call futures)" by simp
  have b: "pool_steps (fst w1) (map Finished (done @ [r]) @ map Call futures)
               (fst w2) (map Finished ((done @ [r]) @ rs))"
    using Cons.IH[of w1 "done @ [r]"] e2 by simp
  show ?case using pool_steps_trans[OF a b] e1 e2 by simp
qed




subsection \<open>What a call can do in one step, and the shape of a task\<close>

inductive_cases step_CallE: "step c (Call n) c' t'"

lemma step_Call_0: "step c (Call 0) c' t' \<Longrightarrow> c' = c \<and> t' = Finished (Inr 0)"
  by (erule step_CallE) simp_all

lemma step_Call_1: "step c (Call 1) c' t' \<Longrightarrow> c' = c \<and> t' = Finished (Inr 1)"
  by (erule step_CallE) (simp_all add: word_sless_alt)

lemma step_Call_hit:
  "step c (Call n) c' t' \<Longrightarrow> \<not> n <s 0 \<Longrightarrow> n \<noteq> 0 \<Longrightarrow> n \<noteq> 1 \<Longrightarrow> c n = Some v \<Longrightarrow>
     c' = c \<and> t' = Finished (Inr v)"
  by (erule step_CallE) simp_all

lemma step_shape:
  "step c t c' t' \<Longrightarrow> shape n t \<Longrightarrow> shape n t'"
proof (induction arbitrary: n rule: step.induct)
  case (rethrow1 c m e r)
  hence h: "\<not> n <s 0" "n \<noteq> 0" "n \<noteq> 1" by simp_all
  have "\<not> n - 1 <s 0" by (rule pred_nonneg[OF h(1,2)])
  thus ?case using rethrow1.prems by simp
next
  case (rethrow2 c m r e)
  hence h: "\<not> n <s 0" "n \<noteq> 0" "n \<noteq> 1" by simp_all
  have "\<not> n - 2 <s 0" by (rule pred2_nonneg[OF h])
  thus ?case using rethrow2.prems by simp
qed (auto simp: word_sless_alt)

lemma steps_shape: "steps c t c' t' \<Longrightarrow> shape n t \<Longrightarrow> shape n t'"
  by (induction rule: steps.induct) (auto dest: step_shape)

lemma shape_calls: "shape n t \<Longrightarrow> \<not> n <s 0 \<Longrightarrow> \<forall>m \<in> calls t. \<not> m <s 0"
proof (induction t arbitrary: n)
  case (Awaiting m t1 t2)
  hence "\<not> n <s 0" "n \<noteq> 0" "n \<noteq> 1" by simp_all
  thus ?case using Awaiting pred_nonneg[of n] pred2_nonneg[of n] by auto
next
  case (Unwinding m t1)
  hence "\<not> n <s 0" "n \<noteq> 0" "n \<noteq> 1" by simp_all
  thus ?case using Unwinding pred_nonneg[of n] by auto
qed auto

lemma step_Call_warm:
  assumes "step c (Call n) c' t'" "\<not> n <s 0" "n = 0 \<or> n = 1 \<or> c n \<noteq> None"
  shows "c' = c \<and> t' = Finished (fst (fibonacci_cpp n (c, ls)))"
proof (cases "n = 0 \<or> n = 1")
  case True
  thus ?thesis using assms(1) step_Call_0[of c c' t'] step_Call_1[of c c' t']
    by (auto simp: fibonacci_cpp_0 fibonacci_cpp_1)
next
  case False
  then obtain v where v: "c n = Some v" using assms(3) by auto
  have "fibonacci_cpp n (c, ls) = (Inr v, (c, ls))"
    using fibonacci_cpp_hit[of n c v ls] assms(2) False v by simp
  thus ?thesis using step_Call_hit[OF assms(1,2) _ _ v] False by simp
qed

lemma run_tasks_all_values:
  "snd w = [] \<Longrightarrow> \<forall>i \<in> set futures. \<not> i <s 0 \<Longrightarrow>
     snd (snd (run_tasks futures w)) = [] \<and> (\<forall>r \<in> set (fst (run_tasks futures w)). \<not> isl r)"
proof (induction futures arbitrary: w)
  case Nil
  thus ?case by simp
next
  case (Cons j futures)
  obtain r w1 where e1: "fibonacci_cpp j w = (r, w1)" by (cases "fibonacci_cpp j w")
  obtain rs w2 where e2: "run_tasks futures w1 = (rs, w2)" by (cases "run_tasks futures w1")
  have "\<not> j <s 0" using Cons.prems by simp
  hence h1: "snd w1 = []" "\<not> isl r" using fibonacci_cpp_launched[OF Cons.prems(1), of j] e1 by auto
  have "snd w2 = []" "\<forall>r \<in> set rs. \<not> isl r"
    using Cons.IH[OF h1(1)] Cons.prems(2) e2 by simp_all
  thus ?case using e1 e2 h1 by simp
qed

text \<open>A miss whose first launch fails, and one whose second launch fails.\<close>

lemma fibonacci_cpp_launch1_fails:
  assumes "\<not> n <s 0" "n \<noteq> 0" "n \<noteq> 1" "c n = None"
  shows "fibonacci_cpp n (c, False # ls) = (Inl System_Error, (c, ls))"
  using assms by (simp add: fibonacci_cpp.simps[of n c "False # ls"])


text \<open>The state after the tasks for \<open>0, \<dots>, 92\<close> have run with every launch succeeding.\<close>

lemma warm_92:
  "cache_ok (fst (snd (run_tasks (map word_of_int [0..92]) (Map.empty, []))))"
  "snd (snd (run_tasks (map word_of_int [0..92]) (Map.empty, []))) = []"
  using run_tasks_sound[of "(Map.empty, [])" "map word_of_int [0..92]"]
    run_tasks_launched[OF cache_ok_empty, of "map word_of_int [0..92]"] cache_ok_empty
  by simp_all

lemma Fib64_93: "Fib64 93 = - 6246583658587674878"
  by (simp add: Fib64_def Fib_93)

lemma call_93_warm:
  "fst (fibonacci_cpp 93 (snd (run_tasks (map word_of_int [0..92]) (Map.empty, []))))
     = Inr (- 6246583658587674878)"
proof -
  obtain c ls where w: "snd (run_tasks (map word_of_int [0..92]) (Map.empty, [])) = (c, ls)"
    by (cases "snd (run_tasks (map word_of_int [0..92]) (Map.empty, []))")
  have "cache_ok c" "ls = []" using warm_92 w by simp_all
  hence "fst (fibonacci_cpp 93 (c, ls)) = expected 93" using fibonacci_cpp_expected[of c 93] by simp
  thus ?thesis unfolding w by (simp add: expected_def Fib64_93 word_sless_alt)
qed

lemma pool_step_shape:
  assumes "pool_step c ts c' ts'" "list_all2 shape ns ts"
  shows "list_all2 shape ns ts'"
  using assms
proof (induction rule: pool_step.induct)
  case (1 c t c' t' ts us)
  from "1.prems" obtain ms n ks where ns: "ns = ms @ n # ks"
      and a: "list_all2 shape ms ts" and b: "shape n t" and d: "list_all2 shape ks us"
    by (auto simp: list_all2_append2 list_all2_Cons2)
  have "shape n t'" by (rule step_shape[OF "1.hyps" b])
  thus ?case using ns a d by (auto intro!: list_all2_appendI)
qed

lemma pool_steps_shape:
  "pool_steps c ts c' ts' \<Longrightarrow> list_all2 shape ns ts \<Longrightarrow> list_all2 shape ns ts'"
  by (induction rule: pool_steps.induct) (auto dest: pool_step_shape)

lemma shape_Call: "list_all2 shape ns (map Call ns)"
  by (induction ns) simp_all

lemma shape_Finished:
  "list_all2 shape ns (map Finished outcomes) \<Longrightarrow> \<forall>i \<in> set ns. \<not> i <s 0 \<Longrightarrow>
     \<forall>r \<in> set outcomes. \<not> isl r \<or> r = Inl System_Error"
proof (induction ns arbitrary: outcomes)
  case Nil
  thus ?case by simp
next
  case (Cons n ns)
  thus ?case by (cases outcomes) auto
qed




text \<open>
  Whether the first loop launches its tasks depends only on whether its launches succeed:
  if it does in one environment, it does in every environment in which they succeed.
\<close>

lemma first_loop_launches:
  assumes "\<not> maxN <s 0" "spawn_loop maxN 0 [] ls = Some (Inr futures, ls1)"
  shows "\<forall>ls'. (\<forall>b \<in> set (take (length futures) ls'). b) \<longrightarrow>
           spawn_loop maxN 0 [] ls' = Some (Inr futures, drop (length futures) ls')"
proof (intro allI impI)
  fix ls'
  assume a: "\<forall>b \<in> set (take (length futures) ls'). b"
  have lt: "sint maxN < 2 ^ 31 - 1" and fs: "futures = map word_of_int [0..sint maxN]"
    using spawn_loop_futures[OF assms(2)] by simp_all
  have len: "length futures = nat (sint maxN + 1 - sint (0 :: cpp_int))"
    using assms(1) by (simp add: fs word_sless_alt)
  show "spawn_loop maxN 0 [] ls' = Some (Inr futures, drop (length futures) ls')"
    using spawn_loop_launches[OF lt, of 0 ls' "[]"] a unfolding len fs by simp
qed

section \<open>Claims\<close>

text \<open>
  The solver theorems below speak about \<open>fibonacci_cpp\<close>, the schedule in which the two
  sub-computations run one after the other, and about the interleaving semantics, in which
  they and all other tasks run in any order and any launch may fail.  The two are linked by
  \<open>fibonacci_cpp_is_a_schedule\<close> and \<open>run_tasks_is_a_schedule\<close> (the sequential run is one of
  the interleaved runs, for every environment), \<open>every_schedule_agrees\<close> (all finished runs
  hold the same value, or the exception of a launch), and \<open>progress\<close> with
  \<open>every_schedule_terminates\<close> (no run gets stuck or goes on forever).  The cache invariant
  \<open>cache_ok\<close> holds of the empty cache the program starts with (\<open>cache_ok_empty\<close>) and is
  preserved by every step (\<open>step_preserves\<close>).
\<close>




text \<open>
  C2, as stated, fails on the code: the launches of the first loop are outside the \<open>try\<close>
  block.  When the fourth launch of \<open>run(10, 4)\<close> fails, or the 501st of \<open>run(1000, 4)\<close>,
  the driver is left by \<open>std::system_error\<close> and produces no result sequence.  And when
  the eleven launches of the first loop of \<open>run(10, 4)\<close> and the two of the task for
  \<open>i = 2\<close> succeed and the next one, the first launch of the task for \<open>i = 3\<close>, fails, the
  entry at index 3 is \<open>-1\<close> and the sequence is not \<open>[0, 1, 1, 2, 3, 5, 8, 13, 21, 34, 55]\<close>.
\<close>

theorem driver_left_by_failed_launch:
  "calculateConcurrentFibonacci_cpp 10 4 (Map.empty, [True, True, True, False])
     = Some (Inl System_Error)
   \<and> calculateConcurrentFibonacci_cpp 1000 4 (Map.empty, replicate 500 True @ [False])
     = Some (Inl System_Error)
   \<and> map_option (map_sum id results)
        (calculateConcurrentFibonacci_cpp 10 4
           (Map.empty, [True, True, True, True, True, True, True, True, True, True, True,
                        True, True, False]))
     = Some (Inr [0, 1, 1, - 1, 3, 5, 8, 13, 21, 34, 55])"
proof -
  have e: "replicate 3 True @ [False] = [True, True, True, False]"
    by (simp add: eval_nat_numeral)
  have 1: "calculateConcurrentFibonacci_cpp 10 4 (Map.empty, replicate 3 True @ [False])
          = Some (Inl System_Error)"
    by (rule driver_fails) simp
  have 2: "calculateConcurrentFibonacci_cpp 1000 4 (Map.empty, replicate 500 True @ [False])
          = Some (Inl System_Error)"
    by (rule driver_fails) simp
  have 3: "map_option (map_sum id results)
        (calculateConcurrentFibonacci_cpp 10 4
           (Map.empty, [True, True, True, True, True, True, True, True, True, True, True,
                        True, True, False]))
     = Some (Inr [0, 1, 1, - 1, 3, 5, 8, 13, 21, 34, 55])"
    by code_simp
  show ?thesis using 1 2 3 unfolding e by (intro conjI)
qed

text \<open>
  C2, amended.  For every \<open>maxN \<ge> 0\<close> whose count \<open>maxN + 1\<close> is an \<open>int\<close>: when every
  launch succeeds, the driver returns with a result sequence of length \<open>maxN + 1\<close> whose
  entry at each index \<open>i\<close> in \<open>0..maxN\<close> is the result of the solver for input \<open>i\<close>, called
  in the state the tasks before it have left, which is \<open>Fib i\<close> reduced to 64 bits when the
  cache satisfies its invariant; in particular \<open>run(10, k)\<close> then produces
  \<open>[0, 1, 1, 2, 3, 5, 8, 13, 21, 34, 55]\<close>.  When one of the \<open>maxN + 1\<close> launches of the first
  loop fails, the driver ends with \<open>std::system_error\<close> and without a result sequence.
\<close>

theorem driver_results_in_order_when_launched:
  assumes "\<not> maxN <s 0" "\<not> maxN + 1 <s 0"
  shows "(\<exists>st. calculateConcurrentFibonacci_cpp maxN k (c, []) = Some (Inr st)
            \<and> length (results st) = nat (sint maxN) + 1
            \<and> (\<forall>i. int i \<le> sint maxN \<longrightarrow>
                  Inr (results st ! i) =
                    fst (fibonacci_cpp (word_of_nat i)
                           (snd (run_tasks (take i (map word_of_int [0..sint maxN])) (c, []))))
                  \<and> (cache_ok c \<longrightarrow> results st ! i = Fib64 (word_of_nat i))))
       \<and> (cache_ok c \<longrightarrow>
            map_option (map_sum id results) (calculateConcurrentFibonacci_cpp 10 k (c, []))
              = Some (Inr [0, 1, 1, 2, 3, 5, 8, 13, 21, 34, 55]))
       \<and> (\<forall>j ls. int j \<le> sint maxN \<longrightarrow>
            calculateConcurrentFibonacci_cpp maxN k (c, replicate j True @ False # ls)
              = Some (Inl System_Error))"
proof -
  let ?futures = "map word_of_int [0..sint maxN] :: cpp_int list"
  let ?outcomes = "fst (run_tasks ?futures (c, []))"
  have nn: "0 \<le> sint maxN" using assms(1) by (simp add: word_sless_alt)
  have lt: "sint maxN < 2 ^ 31 - 1"
  proof (rule ccontr)
    assume "\<not> sint maxN < 2 ^ 31 - 1"
    hence "sint maxN = 2 ^ 31 - 1" using sint_lt[of maxN] by simp
    hence "word_of_int (sint maxN) = (word_of_int (2 ^ 31 - 1) :: cpp_int)" by simp
    hence "maxN = 0x7FFFFFFF" by simp
    thus False using assms(2) by (simp add: word_sless_alt)
  qed
  have sp: "spawn_loop maxN 0 [] [] = Some (Inr ?futures, [])"
    using spawn_loop_launches[OF lt, of 0 "[]" "[]"] by simp
  define st where "st = \<lparr>printed = [Cout_banner, Cout_calculating maxN k] @
                                concat (map (\<lambda>r. case r of Inl e \<Rightarrow> [Cerr_exception_caught (what e)]
                                                  | Inr v \<Rightarrow> []) ?outcomes) @
                                [Cout_total_time maxN, Cout_complete],
                      results = map (\<lambda>r. case r of Inl e \<Rightarrow> - 1 | Inr v \<Rightarrow> v) ?outcomes,
                      fib_cache = fst (snd (run_tasks ?futures (c, [])))\<rparr>"
  have d: "calculateConcurrentFibonacci_cpp maxN k (c, []) = Some (Inr st)"
    unfolding st_def by (rule driver_collects[OF sp assms(1)])
  have len: "length (results st) = nat (sint maxN) + 1"
    using nn by (simp add: st_def run_tasks_length)
  have nth: "Inr (results st ! i) =
               fst (fibonacci_cpp (word_of_nat i) (snd (run_tasks (take i ?futures) (c, []))))
             \<and> (cache_ok c \<longrightarrow> results st ! i = Fib64 (word_of_nat i))"
    if i: "int i \<le> sint maxN" for i
  proof -
    have il: "i < length ?futures" using i by simp
    have fi: "?futures ! i = word_of_nat i" by (rule futures_nth(1)[OF lt i])
    have si: "\<not> (word_of_nat i :: cpp_int) <s 0"
      using futures_nth(2)[OF lt i] by (simp add: word_sless_alt)
    let ?w = "snd (run_tasks (take i ?futures) (c, []))"
    have o: "?outcomes ! i = fst (fibonacci_cpp (word_of_nat i) ?w)"
      using run_tasks_nth[OF il, of "(c, [])"] fi by simp
    have "\<forall>j \<in> set (take i ?futures). \<not> j <s 0"
      using futures_nonneg[OF lt] by (meson in_set_takeD)
    hence "snd ?w = []" using run_tasks_all_values[of "(c, [])" "take i ?futures"] by simp
    then obtain v where v: "fst (fibonacci_cpp (word_of_nat i) ?w) = Inr v"
      using fibonacci_cpp_launched[of ?w "word_of_nat i"] si by blast
    have r: "results st ! i = v"
      using il o v by (simp add: st_def run_tasks_length)
    have "cache_ok c \<longrightarrow> v = Fib64 (word_of_nat i)"
    proof
      assume "cache_ok c"
      hence "cache_ok (fst ?w)" using run_tasks_sound[of "(c, [])" "take i ?futures"] by simp
      thus "v = Fib64 (word_of_nat i)" using fibonacci_cpp_value[OF _ v] by simp
    qed
    thus ?thesis using r v by simp
  qed
  have ten: "cache_ok c \<longrightarrow>
            map_option (map_sum id results) (calculateConcurrentFibonacci_cpp 10 k (c, []))
              = Some (Inr [0, 1, 1, 2, 3, 5, 8, 13, 21, 34, 55])"
  proof
    assume ok: "cache_ok c"
    have "\<not> (10 :: cpp_int) <s 0" "sint (10 :: cpp_int) < 2 ^ 31 - 1"
      by (simp_all add: word_sless_alt)
    from driver_launched[OF ok this, of k]
    show "map_option (map_sum id results) (calculateConcurrentFibonacci_cpp 10 k (c, []))
              = Some (Inr [0, 1, 1, 2, 3, 5, 8, 13, 21, 34, 55])"
      unfolding Fib_10_table by simp
  qed
  have fails: "\<forall>j ls. int j \<le> sint maxN \<longrightarrow>
            calculateConcurrentFibonacci_cpp maxN k (c, replicate j True @ False # ls)
              = Some (Inl System_Error)"
    using driver_fails by blast
  have "\<exists>st. calculateConcurrentFibonacci_cpp maxN k (c, []) = Some (Inr st)
            \<and> length (results st) = nat (sint maxN) + 1
            \<and> (\<forall>i. int i \<le> sint maxN \<longrightarrow>
                  Inr (results st ! i) =
                    fst (fibonacci_cpp (word_of_nat i)
                           (snd (run_tasks (take i (map word_of_int [0..sint maxN])) (c, []))))
                  \<and> (cache_ok c \<longrightarrow> results st ! i = Fib64 (word_of_nat i)))"
    by (intro exI[of _ st] conjI allI impI d len) (use nth in blast)+
  thus ?thesis using ten fails by (intro conjI)
qed

theorem driver_results_in_order_when_launched_witness:
  "cache_ok Map.empty \<and> \<not> (10 :: cpp_int) <s 0 \<and> \<not> (10 :: cpp_int) + 1 <s 0
   \<and> (\<exists>st. calculateConcurrentFibonacci_cpp 10 4 (Map.empty, []) = Some (Inr st)
          \<and> length (results st) = 11
          \<and> results st ! 10 = 55)
   \<and> map_option (map_sum id results) (calculateConcurrentFibonacci_cpp 10 4 (Map.empty, []))
       = Some (Inr [0, 1, 1, 2, 3, 5, 8, 13, 21, 34, 55])
   \<and> calculateConcurrentFibonacci_cpp 10 4 (Map.empty, [True, True, False])
       = Some (Inl System_Error)"
proof -
  have nn: "\<not> (10 :: cpp_int) <s 0" by (simp add: word_sless_alt)
  have n1: "\<not> (10 :: cpp_int) + 1 <s 0" by (simp add: word_sless_alt)
  note t = driver_results_in_order_when_launched[OF nn n1, of 4 Map.empty]
  from t obtain st where st: "calculateConcurrentFibonacci_cpp 10 4 (Map.empty, []) = Some (Inr st)"
      "length (results st) = nat (sint (10 :: cpp_int)) + 1"
      "\<forall>i. int i \<le> sint (10 :: cpp_int) \<longrightarrow> (cache_ok Map.empty \<longrightarrow> results st ! i = Fib64 (word_of_nat i))"
    by blast
  have f: "Fib64 10 = 55" by (simp add: Fib64_def eval_nat_numeral)
  have "results st ! 10 = Fib64 (word_of_nat 10)" using st(3)[rule_format, of 10] cache_ok_empty by simp
  hence r: "results st ! 10 = 55" using f by simp
  have l: "length (results st) = 11" using st(2) by simp
  have a: "\<exists>st. calculateConcurrentFibonacci_cpp 10 4 (Map.empty, []) = Some (Inr st)
          \<and> length (results st) = 11 \<and> results st ! 10 = 55"
    using st(1) l r by blast
  have b: "map_option (map_sum id results) (calculateConcurrentFibonacci_cpp 10 4 (Map.empty, []))
       = Some (Inr [0, 1, 1, 2, 3, 5, 8, 13, 21, 34, 55])"
    using t cache_ok_empty by blast
  have "int 2 \<le> sint (10 :: cpp_int)" by simp
  hence "calculateConcurrentFibonacci_cpp 10 4 (Map.empty, replicate 2 True @ False # [])
       = Some (Inl System_Error)" using t by blast
  hence d: "calculateConcurrentFibonacci_cpp 10 4 (Map.empty, [True, True, False])
       = Some (Inl System_Error)" by (simp add: eval_nat_numeral)
  show ?thesis using cache_ok_empty nn n1 a b d by blast
qed

text \<open>
  C3, as stated, fails on the code: a call with \<open>n \<ge> 0\<close> need not return normally.  The
  call for \<open>n = 40\<close> on the empty cache, with its first launch failing, ends with
  \<open>std::system_error\<close>, which the solver does not catch.
\<close>

theorem solve_40_raises_system_error:
  "\<not> (40 :: cpp_int) <s 0
   \<and> fibonacci_cpp 40 (Map.empty, [False]) = (Inl System_Error, (Map.empty, []))"
proof -
  have "fibonacci_cpp 40 (Map.empty, [False]) = (Inl System_Error, (Map.empty, []))"
    by (rule fibonacci_cpp_launch1_fails) (simp_all add: word_sless_alt)
  thus ?thesis by (simp add: word_sless_alt)
qed

text \<open>
  C3, amended.  The solver fails with \<open>std::invalid_argument\<close> exactly when \<open>n < 0\<close>: a
  negative argument is rejected with the cache untouched and without a launch; a call with
  \<open>n \<ge> 0\<close> never ends with \<open>std::invalid_argument\<close>, from any cache and in any environment:
  it returns a value when every launch succeeds, and otherwise a value or the
  \<open>std::system_error\<close> of a launch.  In the interleaving semantics, from any cache: every
  call present in a state reachable from a call with \<open>n \<ge> 0\<close> has a non-negative argument,
  so the sub-calls never receive a negative one, and a finished run holds
  \<open>std::invalid_argument\<close> exactly when \<open>n < 0\<close>.
\<close>

theorem invalid_argument_exactly_when_negative:
  "((\<exists>msg. fst (fibonacci_cpp n (c, ls)) = Inl (Invalid_Argument msg)) \<longleftrightarrow> n <s 0)
   \<and> (n <s 0 \<longrightarrow>
        fibonacci_cpp n (c, ls)
          = (Inl (Invalid_Argument ''Input must be a non-negative integer.''), (c, ls)))
   \<and> (\<not> n <s 0 \<longrightarrow>
        (\<exists>v. fst (fibonacci_cpp n (c, ls)) = Inr v)
        \<or> fst (fibonacci_cpp n (c, ls)) = Inl System_Error)
   \<and> (\<not> n <s 0 \<longrightarrow> (\<exists>v. fst (fibonacci_cpp n (c, [])) = Inr v))
   \<and> (\<forall>c' t'. steps c (Call n) c' t' \<longrightarrow>
          (\<not> n <s 0 \<longrightarrow> (\<forall>m \<in> calls t'. \<not> m <s 0))
        \<and> (\<forall>r. t' = Finished r \<longrightarrow> ((\<exists>msg. r = Inl (Invalid_Argument msg)) \<longleftrightarrow> n <s 0)))"
proof (intro conjI allI impI)
  show "(\<exists>msg. fst (fibonacci_cpp n (c, ls)) = Inl (Invalid_Argument msg)) \<longleftrightarrow> n <s 0"
  proof (cases "n <s 0")
    case True
    thus ?thesis by (simp add: fibonacci_cpp_neg)
  next
    case False
    thus ?thesis using fibonacci_cpp_outcome[OF False, of "(c, ls)"] by auto
  qed
next
  assume "n <s 0"
  thus "fibonacci_cpp n (c, ls)
          = (Inl (Invalid_Argument ''Input must be a non-negative integer.''), (c, ls))"
    by (rule fibonacci_cpp_neg)
next
  assume "\<not> n <s 0"
  thus "(\<exists>v. fst (fibonacci_cpp n (c, ls)) = Inr v)
        \<or> fst (fibonacci_cpp n (c, ls)) = Inl System_Error"
    by (rule fibonacci_cpp_outcome)
next
  assume "\<not> n <s 0"
  thus "\<exists>v. fst (fibonacci_cpp n (c, [])) = Inr v"
    using fibonacci_cpp_launched[of "(c, [])" n] by simp
next
  fix c' t'
  assume st: "steps c (Call n) c' t'" and nn: "\<not> n <s 0"
  have "shape n t'" using steps_shape[OF st] by simp
  from shape_calls[OF this nn] show "\<forall>m \<in> calls t'. \<not> m <s 0" .
next
  fix c' t' r
  assume st: "steps c (Call n) c' t'" and r: "t' = Finished r"
  have "shape n (Finished r)" using steps_shape[OF st] r by simp
  thus "(\<exists>msg. r = Inl (Invalid_Argument msg)) \<longleftrightarrow> n <s 0" by (cases r) (auto split: if_splits)
qed

theorem invalid_argument_exactly_when_negative_witness:
  "(- 1 :: cpp_int) <s 0 \<and> \<not> (5 :: cpp_int) <s 0
   \<and> fibonacci_cpp (- 1) (Map.empty, [False])
       = (Inl (Invalid_Argument ''Input must be a non-negative integer.''), (Map.empty, [False]))
   \<and> (\<exists>v. fst (fibonacci_cpp 5 (Map.empty, [])) = Inr v)
   \<and> steps Map.empty (Call 5) Map.empty (Unwinding 5 (Call 4))
   \<and> \<not> (4 :: cpp_int) <s 0
   \<and> steps Map.empty (Call 5) Map.empty (Finished (Inl System_Error))"
proof -
  have nn: "\<not> (5 :: cpp_int) <s 0" by (simp add: word_sless_alt)
  have m: "step Map.empty (Call 5) Map.empty (Unlocked 5)" by (rule step.miss[OF nn]) simp_all
  have "step Map.empty (Unlocked 5) Map.empty (Unwinding 5 (Call 4))"
    using step.launch2_fails[of Map.empty 5] by simp
  hence st: "steps Map.empty (Call 5) Map.empty (Unwinding 5 (Call 4))"
    using m by (blast intro: steps.intros)
  have fl: "steps Map.empty (Call 5) Map.empty (Finished (Inl System_Error))"
    using m step.launch1_fails[of Map.empty 5] by (blast intro: steps.intros)
  have neg: "(- 1 :: cpp_int) <s 0" by (simp add: word_sless_alt)
  have a: "fibonacci_cpp (- 1) (Map.empty, [False])
       = (Inl (Invalid_Argument ''Input must be a non-negative integer.''), (Map.empty, [False]))"
    using invalid_argument_exactly_when_negative[of "- 1" Map.empty "[False]"] neg by blast
  have b: "\<exists>v. fst (fibonacci_cpp 5 (Map.empty, [])) = Inr v"
    using invalid_argument_exactly_when_negative[of 5 Map.empty "[]"] nn by blast
  have d: "\<forall>m \<in> calls (Unwinding 5 (Call 4)). \<not> m <s 0"
    using invalid_argument_exactly_when_negative[of 5 Map.empty "[]"] nn st by blast
  show ?thesis using neg nn a b d st fl by (simp add: word_sless_alt)
qed




text \<open>
  C5. Once the first loop has launched the tasks, the driver waits for each of them in
  launch order and always returns: the result sequence has one entry per task; where the
  task has failed with an exception the entry is \<open>-1\<close>, and the exception is reported on
  \<open>std::cerr\<close>; where the task has returned a value the entry is that value, which is
  \<open>Fib i\<close> reduced to 64 bits when the cache satisfies its invariant; and the driver goes on
  to its last statement.  The same holds of the second loop on any batch: with a negative
  index injected, that position holds \<open>-1\<close> and the length is that of the batch.  The
  first loop launches the tasks in every environment in which its launches succeed.
\<close>

theorem sentinel_substitution:
  assumes "\<not> maxN <s 0" "spawn_loop maxN 0 [] ls = Some (Inr futures, ls1)"
  shows "(\<exists>st. calculateConcurrentFibonacci_cpp maxN k (c, ls) = Some (Inr st)
          \<and> futures = map word_of_int [0..sint maxN]
          \<and> length (results st) = length futures
          \<and> (\<forall>i < length futures.
                fst (run_tasks futures (c, ls1)) ! i
                  = fst (fibonacci_cpp (futures ! i) (snd (run_tasks (take i futures) (c, ls1))))
              \<and> (\<forall>e. fst (run_tasks futures (c, ls1)) ! i = Inl e \<longrightarrow>
                    results st ! i = - 1 \<and> Cerr_exception_caught (what e) \<in> set (printed st))
              \<and> (\<forall>v. fst (run_tasks futures (c, ls1)) ! i = Inr v \<longrightarrow>
                    results st ! i = v \<and> (cache_ok c \<longrightarrow> v = Fib64 (futures ! i))))
          \<and> last (printed st) = Cout_complete
          \<and> (\<forall>batch w out i. i < length batch \<and> batch ! i <s 0 \<longrightarrow>
                length (fst (collect (fst (run_tasks batch w)) [] out)) = length batch
              \<and> fst (collect (fst (run_tasks batch w)) [] out) ! i = - 1))
       \<and> (\<forall>ls'. (\<forall>b \<in> set (take (length futures) ls'). b) \<longrightarrow>
             spawn_loop maxN 0 [] ls' = Some (Inr futures, drop (length futures) ls'))"
proof -
  let ?outcomes = "fst (run_tasks futures (c, ls1))"
  define st where "st = \<lparr>printed = [Cout_banner, Cout_calculating maxN k] @
                                concat (map (\<lambda>r. case r of Inl e \<Rightarrow> [Cerr_exception_caught (what e)]
                                                  | Inr v \<Rightarrow> []) ?outcomes) @
                                [Cout_total_time maxN, Cout_complete],
                      results = map (\<lambda>r. case r of Inl e \<Rightarrow> - 1 | Inr v \<Rightarrow> v) ?outcomes,
                      fib_cache = fst (snd (run_tasks futures (c, ls1)))\<rparr>"
  have d: "calculateConcurrentFibonacci_cpp maxN k (c, ls) = Some (Inr st)"
    unfolding st_def by (rule driver_collects[OF assms(2,1)])
  have fs: "futures = map word_of_int [0..sint maxN]" using spawn_loop_futures[OF assms(2)] by simp
  have len: "length (results st) = length futures" by (simp add: st_def run_tasks_length)
  have lo: "length ?outcomes = length futures" by (rule run_tasks_length)
  have nth: "?outcomes ! i
                  = fst (fibonacci_cpp (futures ! i) (snd (run_tasks (take i futures) (c, ls1))))
              \<and> (\<forall>e. ?outcomes ! i = Inl e \<longrightarrow>
                    results st ! i = - 1 \<and> Cerr_exception_caught (what e) \<in> set (printed st))
              \<and> (\<forall>v. ?outcomes ! i = Inr v \<longrightarrow>
                    results st ! i = v \<and> (cache_ok c \<longrightarrow> v = Fib64 (futures ! i)))"
    if i: "i < length futures" for i
  proof (intro conjI allI impI)
    show o: "?outcomes ! i
                  = fst (fibonacci_cpp (futures ! i) (snd (run_tasks (take i futures) (c, ls1))))"
      by (rule run_tasks_nth[OF i])
    have mem: "?outcomes ! i \<in> set ?outcomes" using i lo by simp
    {
      fix e
      assume e: "?outcomes ! i = Inl e"
      show "results st ! i = - 1" using i lo e by (simp add: st_def)
      have "Inl e \<in> set ?outcomes" using mem e by simp
      thus "Cerr_exception_caught (what e) \<in> set (printed st)"
        by (force simp: st_def)
    }
    {
      fix v
      assume v: "?outcomes ! i = Inr v"
      show "results st ! i = v" using i lo v by (simp add: st_def)
      assume ok: "cache_ok c"
      hence "cache_ok (fst (snd (run_tasks (take i futures) (c, ls1))))"
        using run_tasks_sound[of "(c, ls1)" "take i futures"] by simp
      from fibonacci_cpp_value[OF this] o v show "v = Fib64 (futures ! i)" by simp
    }
  qed
  have lst: "last (printed st) = Cout_complete" by (simp add: st_def)
  have inj: "\<forall>batch w out i. i < length batch \<and> batch ! i <s 0 \<longrightarrow>
                length (fst (collect (fst (run_tasks batch w)) [] out)) = length batch
              \<and> fst (collect (fst (run_tasks batch w)) [] out) ! i = - 1"
  proof (intro allI impI)
    fix batch :: "cpp_int list" and w :: world and out :: "event list" and i
    assume h: "i < length batch \<and> batch ! i <s 0"
    have "fst (run_tasks batch w) ! i
            = fst (fibonacci_cpp (batch ! i) (snd (run_tasks (take i batch) w)))"
      using run_tasks_nth[of i batch w] h by simp
    hence "fst (run_tasks batch w) ! i = Inl (Invalid_Argument ''Input must be a non-negative integer.'')"
      using h by (simp add: fibonacci_cpp_neg)
    thus "length (fst (collect (fst (run_tasks batch w)) [] out)) = length batch
              \<and> fst (collect (fst (run_tasks batch w)) [] out) ! i = - 1"
      using h by (simp add: collect_results run_tasks_length)
  qed
  have live: "\<forall>ls'. (\<forall>b \<in> set (take (length futures) ls'). b) \<longrightarrow>
             spawn_loop maxN 0 [] ls' = Some (Inr futures, drop (length futures) ls')"
    by (rule first_loop_launches[OF assms])
  have "\<exists>st. calculateConcurrentFibonacci_cpp maxN k (c, ls) = Some (Inr st)
          \<and> futures = map word_of_int [0..sint maxN]
          \<and> length (results st) = length futures
          \<and> (\<forall>i < length futures.
                fst (run_tasks futures (c, ls1)) ! i
                  = fst (fibonacci_cpp (futures ! i) (snd (run_tasks (take i futures) (c, ls1))))
              \<and> (\<forall>e. fst (run_tasks futures (c, ls1)) ! i = Inl e \<longrightarrow>
                    results st ! i = - 1 \<and> Cerr_exception_caught (what e) \<in> set (printed st))
              \<and> (\<forall>v. fst (run_tasks futures (c, ls1)) ! i = Inr v \<longrightarrow>
                    results st ! i = v \<and> (cache_ok c \<longrightarrow> v = Fib64 (futures ! i))))
          \<and> last (printed st) = Cout_complete
          \<and> (\<forall>batch w out i. i < length batch \<and> batch ! i <s 0 \<longrightarrow>
                length (fst (collect (fst (run_tasks batch w)) [] out)) = length batch
              \<and> fst (collect (fst (run_tasks batch w)) [] out) ! i = - 1)"
    by (intro exI[of _ st] conjI d fs len lst inj) (use nth in blast)
  thus ?thesis using live by (rule conjI)
qed

theorem sentinel_substitution_witness:
  "\<not> (3 :: cpp_int) <s 0
   \<and> spawn_loop 3 0 [] [True, True, True, True, False] = Some (Inr [0, 1, 2, 3], [False])
   \<and> fst (run_tasks [0, 1, 2, 3] (Map.empty, [False]))
       = [Inr 0, Inr 1, Inl System_Error, Inr 2]
   \<and> (\<exists>st. calculateConcurrentFibonacci_cpp 3 4 (Map.empty, [True, True, True, True, False])
              = Some (Inr st)
          \<and> length (results st) = 4
          \<and> results st ! 2 = - 1
          \<and> Cerr_exception_caught (what System_Error) \<in> set (printed st)
          \<and> results st ! 3 = 2
          \<and> last (printed st) = Cout_complete)"
proof -
  have nn: "\<not> (3 :: cpp_int) <s 0" by (simp add: word_sless_alt)
  have sp: "spawn_loop 3 0 [] [True, True, True, True, False] = Some (Inr [0, 1, 2, 3], [False])"
    by code_simp
  have rt: "fst (run_tasks [0, 1, 2, 3] (Map.empty, [False]))
       = [Inr 0, Inr 1, Inl System_Error, Inr 2]"
    by code_simp
  from sentinel_substitution[OF nn sp, of 4 Map.empty]
  obtain st where a:
      "calculateConcurrentFibonacci_cpp 3 4 (Map.empty, [True, True, True, True, False])
         = Some (Inr st)"
    and l: "length (results st) = length [0, 1, 2, 3 :: cpp_int]"
    and q: "\<forall>i < length [0, 1, 2, 3 :: cpp_int].
                fst (run_tasks [0, 1, 2, 3] (Map.empty, [False])) ! i
                  = fst (fibonacci_cpp ([0, 1, 2, 3] ! i)
                           (snd (run_tasks (take i [0, 1, 2, 3]) (Map.empty, [False]))))
              \<and> (\<forall>e. fst (run_tasks [0, 1, 2, 3] (Map.empty, [False])) ! i = Inl e \<longrightarrow>
                    results st ! i = - 1 \<and> Cerr_exception_caught (what e) \<in> set (printed st))
              \<and> (\<forall>v. fst (run_tasks [0, 1, 2, 3] (Map.empty, [False])) ! i = Inr v \<longrightarrow>
                    results st ! i = v \<and> (cache_ok Map.empty \<longrightarrow> v = Fib64 ([0, 1, 2, 3] ! i)))"
    and la: "last (printed st) = Cout_complete"
    by (elim exE conjE) (rule that; assumption)
  have i2: "(2 :: nat) < length [0, 1, 2, 3 :: cpp_int]" by simp
  have i3: "(3 :: nat) < length [0, 1, 2, 3 :: cpp_int]" by simp
  have 2: "results st ! 2 = - 1 \<and> Cerr_exception_caught (what System_Error) \<in> set (printed st)"
    using conjunct1[OF conjunct2[OF q[rule_format, OF i2]]] unfolding rt by simp
  have 3: "results st ! 3 = 2"
    using conjunct2[OF conjunct2[OF q[rule_format, OF i3]]] unfolding rt by simp
  have 4: "length (results st) = 4" using l by simp
  show ?thesis
    by (intro conjI nn sp rt exI[of _ st] a 4 conjunct1[OF 2] conjunct2[OF 2] 3 la)
qed

text \<open>
  C6, as stated, fails on the code: the error branch of the driver is reachable.  In
  \<open>run(10, 4)\<close>, when the eleven launches of the first loop succeed and the next one, the
  first launch inside the task for \<open>i = 2\<close>, fails, that task ends with \<open>std::system_error\<close>,
  the driver catches it, reports it on \<open>std::cerr\<close> and stores \<open>-1\<close> at index 2.
\<close>

theorem error_branch_reached_by_failed_launch:
  "map_option (map_sum id (\<lambda>st. (results st, printed st)))
     (calculateConcurrentFibonacci_cpp 10 4
        (Map.empty, [True, True, True, True, True, True, True, True, True, True, True, False]))
   = Some (Inr ([0, 1, - 1, 2, 3, 5, 8, 13, 21, 34, 55],
                [Cout_banner, Cout_calculating 10 4,
                 Cerr_exception_caught ''Resource temporarily unavailable'',
                 Cout_total_time 10, Cout_complete]))"
  by code_simp

text \<open>
  C6, amended.  In every run of the driver with \<open>maxN \<ge> 0\<close> that reaches the second loop,
  every spawned solver input \<open>i\<close> satisfies \<open>i \<ge> 0\<close>, so no task ends with
  \<open>std::invalid_argument\<close>, in the sequential schedule and in every interleaved run of the
  tasks; the error branch is reached only by the \<open>std::system_error\<close> of a launch that
  failed inside a task, and then \<open>-1\<close> is stored.  When no launch fails the error branch is
  not reached and, the cache satisfying its invariant, \<open>-1\<close> does not appear in the result
  sequence.  A run reaches the second loop in every environment in which the launches of
  the first loop succeed.
\<close>

theorem error_branch_only_by_failed_launch:
  assumes "\<not> maxN <s 0" "spawn_loop maxN 0 [] ls = Some (Inr futures, ls1)"
  shows "(\<forall>i \<in> set futures. \<not> i <s 0)
       \<and> (\<forall>r \<in> set (fst (run_tasks futures (c, ls1))). \<forall>msg. r \<noteq> Inl (Invalid_Argument msg))
       \<and> (\<forall>c' outcomes. pool_steps c (map Call futures) c' (map Finished outcomes) \<longrightarrow>
             (\<forall>r \<in> set outcomes. \<forall>msg. r \<noteq> Inl (Invalid_Argument msg)))
       \<and> (\<exists>st. calculateConcurrentFibonacci_cpp maxN k (c, ls) = Some (Inr st)
              \<and> (\<forall>msg. Cerr_exception_caught msg \<in> set (printed st) \<longrightarrow>
                     msg = what System_Error
                     \<and> Inl System_Error \<in> set (fst (run_tasks futures (c, ls1)))
                     \<and> - 1 \<in> set (results st))
              \<and> (ls1 = [] \<longrightarrow> (\<forall>msg. Cerr_exception_caught msg \<notin> set (printed st)))
              \<and> (ls1 = [] \<and> cache_ok c \<longrightarrow> - 1 \<notin> set (results st)))
       \<and> (\<forall>ls'. (\<forall>b \<in> set (take (length futures) ls'). b) \<longrightarrow>
             spawn_loop maxN 0 [] ls' = Some (Inr futures, drop (length futures) ls'))"
proof -
  let ?outcomes = "fst (run_tasks futures (c, ls1))"
  have fs: "futures = map word_of_int [0..sint maxN]" and lt: "sint maxN < 2 ^ 31 - 1"
    using spawn_loop_futures[OF assms(2)] by simp_all
  have 1: "\<forall>i \<in> set futures. \<not> i <s 0" unfolding fs by (rule futures_nonneg[OF lt])
  have out: "\<forall>r \<in> set ?outcomes. \<not> isl r \<or> r = Inl System_Error"
    by (rule run_tasks_outcome[OF 1])
  have 2: "\<forall>r \<in> set ?outcomes. \<forall>msg. r \<noteq> Inl (Invalid_Argument msg)"
    using out by auto
  have 3: "\<forall>c' outcomes. pool_steps c (map Call futures) c' (map Finished outcomes) \<longrightarrow>
             (\<forall>r \<in> set outcomes. \<forall>msg. r \<noteq> Inl (Invalid_Argument msg))"
  proof (intro allI impI)
    fix c' outcomes
    assume "pool_steps c (map Call futures) c' (map Finished outcomes)"
    hence "list_all2 shape futures (map Finished outcomes)"
      using pool_steps_shape[OF _ shape_Call] by blast
    hence "\<forall>r \<in> set outcomes. \<not> isl r \<or> r = Inl System_Error" using 1 by (rule shape_Finished)
    thus "\<forall>r \<in> set outcomes. \<forall>msg. r \<noteq> Inl (Invalid_Argument msg)" by auto
  qed
  define st where "st = \<lparr>printed = [Cout_banner, Cout_calculating maxN k] @
                                concat (map (\<lambda>r. case r of Inl e \<Rightarrow> [Cerr_exception_caught (what e)]
                                                  | Inr v \<Rightarrow> []) ?outcomes) @
                                [Cout_total_time maxN, Cout_complete],
                      results = map (\<lambda>r. case r of Inl e \<Rightarrow> - 1 | Inr v \<Rightarrow> v) ?outcomes,
                      fib_cache = fst (snd (run_tasks futures (c, ls1)))\<rparr>"
  have d: "calculateConcurrentFibonacci_cpp maxN k (c, ls) = Some (Inr st)"
    unfolding st_def by (rule driver_collects[OF assms(2,1)])
  have 4: "\<forall>msg. Cerr_exception_caught msg \<in> set (printed st) \<longrightarrow>
                     msg = what System_Error
                     \<and> Inl System_Error \<in> set ?outcomes
                     \<and> - 1 \<in> set (results st)"
  proof (intro allI impI)
    fix msg
    assume "Cerr_exception_caught msg \<in> set (printed st)"
    then obtain r where r: "r \<in> set ?outcomes"
        "Cerr_exception_caught msg \<in> set (case r of Inl e \<Rightarrow> [Cerr_exception_caught (what e)] | Inr v \<Rightarrow> [])"
      by (auto simp: st_def)
    then obtain e where e: "r = Inl e" "msg = what e" by (cases r) auto
    have s: "e = System_Error" using out r(1) e(1) by auto
    have "- 1 \<in> set (results st)" using r(1) e(1) by (force simp: st_def)
    thus "msg = what System_Error \<and> Inl System_Error \<in> set ?outcomes \<and> - 1 \<in> set (results st)"
      using r(1) e s by simp
  qed
  have vals: "\<forall>r \<in> set ?outcomes. \<not> isl r" if "ls1 = []"
    using run_tasks_all_values[of "(c, ls1)" futures] that 1 by simp
  have 5: "ls1 = [] \<longrightarrow> (\<forall>msg. Cerr_exception_caught msg \<notin> set (printed st))"
  proof (intro impI allI notI)
    fix msg
    assume "ls1 = []" and "Cerr_exception_caught msg \<in> set (printed st)"
    hence "Inl System_Error \<in> set ?outcomes" using 4 by blast
    thus False using vals[OF \<open>ls1 = []\<close>] by auto
  qed
  have 6: "ls1 = [] \<and> cache_ok c \<longrightarrow> - 1 \<notin> set (results st)"
  proof (intro impI notI)
    assume h: "ls1 = [] \<and> cache_ok c" and m: "- 1 \<in> set (results st)"
    have "?outcomes = map expected futures"
      using run_tasks_launched[of c futures] h by simp
    hence "?outcomes = map (\<lambda>i. Inr (Fib64 i)) futures"
      using 1 by (simp add: expected_def)
    hence "results st = map Fib64 futures" by (simp add: st_def comp_def)
    then obtain i where "i \<in> set futures" "Fib64 i = - 1" using m by auto
    thus False using 1 Fib64_nonneg_not_sentinel[of i] by blast
  qed
  have "\<exists>st. calculateConcurrentFibonacci_cpp maxN k (c, ls) = Some (Inr st)
              \<and> (\<forall>msg. Cerr_exception_caught msg \<in> set (printed st) \<longrightarrow>
                     msg = what System_Error
                     \<and> Inl System_Error \<in> set (fst (run_tasks futures (c, ls1)))
                     \<and> - 1 \<in> set (results st))
              \<and> (ls1 = [] \<longrightarrow> (\<forall>msg. Cerr_exception_caught msg \<notin> set (printed st)))
              \<and> (ls1 = [] \<and> cache_ok c \<longrightarrow> - 1 \<notin> set (results st))"
    by (intro exI[of _ st] conjI d 4 5 6)
  moreover have "\<forall>ls'. (\<forall>b \<in> set (take (length futures) ls'). b) \<longrightarrow>
             spawn_loop maxN 0 [] ls' = Some (Inr futures, drop (length futures) ls')"
    by (rule first_loop_launches[OF assms])
  ultimately show ?thesis using 1 2 3 by (intro conjI)
qed

theorem error_branch_only_by_failed_launch_witness:
  "\<not> (3 :: cpp_int) <s 0 \<and> cache_ok Map.empty
   \<and> spawn_loop 3 0 [] [] = Some (Inr [0, 1, 2, 3], [])
   \<and> \<not> (0 :: cpp_int) <s 0 \<and> \<not> (1 :: cpp_int) <s 0 \<and> \<not> (2 :: cpp_int) <s 0
   \<and> \<not> (3 :: cpp_int) <s 0
   \<and> (\<exists>st. calculateConcurrentFibonacci_cpp 3 4 (Map.empty, []) = Some (Inr st)
          \<and> - 1 \<notin> set (results st)
          \<and> Cerr_exception_caught (what System_Error) \<notin> set (printed st))"
proof -
  have nn: "\<not> (3 :: cpp_int) <s 0" by (simp add: word_sless_alt)
  have sp: "spawn_loop 3 0 [] [] = Some (Inr [0, 1, 2, 3], [])" by code_simp
  note t = error_branch_only_by_failed_launch[OF nn sp, of Map.empty 4]
  have f: "\<forall>i \<in> set [0, 1, 2, 3 :: cpp_int]. \<not> i <s 0" using t by (rule conjunct1)
  from t obtain st where a: "calculateConcurrentFibonacci_cpp 3 4 (Map.empty, []) = Some (Inr st)"
    and b: "([] :: bool list) = [] \<longrightarrow> (\<forall>msg. Cerr_exception_caught msg \<notin> set (printed st))"
    and d: "([] :: bool list) = [] \<and> cache_ok Map.empty \<longrightarrow> - 1 \<notin> set (results st)"
    by (elim exE conjE) (rule that; assumption)
  have b': "Cerr_exception_caught (what System_Error) \<notin> set (printed st)" using b by simp
  have d': "- 1 \<notin> set (results st)" using d cache_ok_empty by simp
  have e: "\<exists>st. calculateConcurrentFibonacci_cpp 3 4 (Map.empty, []) = Some (Inr st)
          \<and> - 1 \<notin> set (results st)
          \<and> Cerr_exception_caught (what System_Error) \<notin> set (printed st)"
    by (intro exI[of _ st] conjI a d' b')
  show ?thesis using nn cache_ok_empty sp f e by simp
qed

text \<open>
  C7. The result sequence and the cache the driver leaves do not depend on the
  parallelism hint: two runs that differ only in \<open>numThreads\<close> agree on both, on whether
  the run returns at all and on the exception that leaves it, in every environment.  The
  hint appears in the printed text only.
\<close>

theorem hint_is_informational:
  "map_option (map_sum id (\<lambda>st. (results st, fib_cache st)))
       (calculateConcurrentFibonacci_cpp maxN k1 w)
   = map_option (map_sum id (\<lambda>st. (results st, fib_cache st)))
       (calculateConcurrentFibonacci_cpp maxN k2 w)"
proof -
  obtain c ls where w: "w = (c, ls)" by (cases w)
  show ?thesis
  proof (cases "spawn_loop maxN 0 [] ls")
    case None
    thus ?thesis by (simp add: calculateConcurrentFibonacci_cpp_def w)
  next
    case (Some r)
    obtain launched ls1 where r: "r = (launched, ls1)" by (cases r)
    show ?thesis
    proof (cases launched)
      case (Inl e)
      thus ?thesis using Some r by (simp add: calculateConcurrentFibonacci_cpp_def w)
    next
      case (Inr futures)
      obtain outcomes c' ls' where rt: "run_tasks futures (c, ls1) = (outcomes, (c', ls'))"
        by (cases "run_tasks futures (c, ls1)") auto
      have "fst (collect outcomes [] [Cout_banner, Cout_calculating maxN k1])
          = fst (collect outcomes [] [Cout_banner, Cout_calculating maxN k2])"
        by (simp add: collect_results)
      thus ?thesis using Some r Inr rt
        by (auto simp: calculateConcurrentFibonacci_cpp_def w split: prod.splits)
    qed
  qed
qed

theorem hint_is_informational_witness:
  "map_option (map_sum id results) (calculateConcurrentFibonacci_cpp 3 1 (Map.empty, []))
     = Some (Inr [0, 1, 1, 2])
   \<and> map_option (map_sum id results) (calculateConcurrentFibonacci_cpp 3 8 (Map.empty, []))
     = Some (Inr [0, 1, 1, 2])"
proof -
  have a: "map_option (map_sum id results) (calculateConcurrentFibonacci_cpp 3 1 (Map.empty, []))
     = Some (Inr [0, 1, 1, 2])"
    by code_simp
  have "map_option (map_sum id (fst \<circ> (\<lambda>st. (results st, fib_cache st))))
           (calculateConcurrentFibonacci_cpp 3 8 (Map.empty, []))
      = map_option (map_sum id (fst \<circ> (\<lambda>st. (results st, fib_cache st))))
           (calculateConcurrentFibonacci_cpp 3 1 (Map.empty, []))"
    using arg_cong[OF hint_is_informational[of 3 8 "(Map.empty, [])" 1],
        of "map_option (map_sum id fst)"]
    by (simp add: option.map_comp sum.map_comp comp_def id_def)
  thus ?thesis using a by (simp add: comp_def id_def)
qed

text \<open>
  C8. For the base cases \<open>n = 0\<close> and \<open>n = 1\<close> the solver returns 0 and 1 whatever the
  cache holds, and the cache after the call is the cache before it: the base cases neither
  read nor write the cache, and they launch nothing.  In the interleaving semantics the
  only step of such a call finishes it with that value and leaves the cache as it is.
\<close>

theorem base_cases_bypass_cache:
  "fibonacci_cpp 0 (c, ls) = (Inr 0, (c, ls)) \<and> fibonacci_cpp 1 (c, ls) = (Inr 1, (c, ls))
   \<and> (\<forall>c' t'. step c (Call 0) c' t' \<longrightarrow> c' = c \<and> t' = Finished (Inr 0))
   \<and> (\<forall>c' t'. step c (Call 1) c' t' \<longrightarrow> c' = c \<and> t' = Finished (Inr 1))"
  using step_Call_0[of c] step_Call_1[of c] by (simp add: fibonacci_cpp_0 fibonacci_cpp_1)

theorem base_cases_bypass_cache_witness:
  "fibonacci_cpp 0 ([7 \<mapsto> 9], [False]) = (Inr 0, ([7 \<mapsto> 9], [False]))
   \<and> fibonacci_cpp 1 ([7 \<mapsto> 9], [False]) = (Inr 1, ([7 \<mapsto> 9], [False]))
   \<and> step [7 \<mapsto> 9] (Call 0) [7 \<mapsto> 9] (Finished (Inr 0))
   \<and> step [7 \<mapsto> 9] (Call 1) [7 \<mapsto> 9] (Finished (Inr 1))"
proof -
  have "fibonacci_cpp 0 ([7 \<mapsto> 9], [False]) = (Inr 0, ([7 \<mapsto> 9], [False]))"
    and "fibonacci_cpp 1 ([7 \<mapsto> 9], [False]) = (Inr 1, ([7 \<mapsto> 9], [False]))"
    using base_cases_bypass_cache[of "[7 \<mapsto> 9]" "[False]"] by blast+
  thus ?thesis using step.base0[of "[7 \<mapsto> 9]"] step.base1[of "[7 \<mapsto> 9]"] by simp
qed

text \<open>
  C9. Idempotence.  Once the cache is warm for \<open>n \<ge> 0\<close> (an entry for \<open>n\<close> is present, or
  \<open>n\<close> is a base case), a call for \<open>n\<close> leaves the cache as it is and launches nothing,
  any number of repeated calls return the same value, and so does a call made after any
  other batch of calls, in any environment.  In the interleaving semantics such a call
  finishes in one step with that value, and, the cache satisfying the invariant, it returns
  that value after any run of any pool of tasks.
\<close>

theorem warm_calls_agree:
  assumes "\<not> n <s 0" "n = 0 \<or> n = 1 \<or> c n \<noteq> None"
  shows "snd (fibonacci_cpp n (c, ls)) = (c, ls)
       \<and> run_tasks (replicate k n) (c, ls) = (replicate k (fst (fibonacci_cpp n (c, ls))), (c, ls))
       \<and> fst (fibonacci_cpp n (snd (run_tasks futures (c, ls)))) = fst (fibonacci_cpp n (c, ls))
       \<and> (\<forall>c' t'. step c (Call n) c' t' \<longrightarrow>
             c' = c \<and> t' = Finished (fst (fibonacci_cpp n (c, ls))))
       \<and> (cache_ok c \<longrightarrow> (\<forall>ns c' ts' ls'. pool_steps c (map Call ns) c' ts' \<longrightarrow>
              fst (fibonacci_cpp n (c', ls')) = fst (fibonacci_cpp n (c, ls))))"
proof (intro conjI allI impI)
  show u: "snd (fibonacci_cpp n (c, ls)) = (c, ls)" using warm_unchanged[of n c ls] assms(2) by simp
  show "run_tasks (replicate k n) (c, ls) = (replicate k (fst (fibonacci_cpp n (c, ls))), (c, ls))"
    by (rule run_tasks_replicate_warm[OF u])
  obtain c1 ls1 where e: "snd (run_tasks futures (c, ls)) = (c1, ls1)"
    by (cases "snd (run_tasks futures (c, ls))")
  have "c \<subseteq>\<^sub>m c1" using run_tasks_map_le[of "(c, ls)" futures] e by simp
  thus "fst (fibonacci_cpp n (snd (run_tasks futures (c, ls)))) = fst (fibonacci_cpp n (c, ls))"
    unfolding e using warm_stable[of n c c1 ls1 ls] assms by simp
next
  fix c' t'
  assume "step c (Call n) c' t'"
  from step_Call_warm[OF this assms, of ls]
  show "c' = c" "t' = Finished (fst (fibonacci_cpp n (c, ls)))"
    by simp_all
next
  fix ns c' ts' ls'
  assume ok: "cache_ok c" and ps: "pool_steps c (map Call ns) c' ts'"
  have "c \<subseteq>\<^sub>m c'" using pool_steps_preserves[OF ps ok computes_Call] by simp
  thus "fst (fibonacci_cpp n (c', ls')) = fst (fibonacci_cpp n (c, ls))"
    using warm_stable[of n c c' ls' ls] assms by simp
qed

theorem warm_calls_agree_witness:
  "\<not> (2 :: cpp_int) <s 0 \<and> [2 \<mapsto> 1 :: long_long] (2 :: cpp_int) \<noteq> None \<and> cache_ok [2 \<mapsto> 1]
   \<and> run_tasks (replicate 3 2) ([2 \<mapsto> 1], [False]) = ([Inr 1, Inr 1, Inr 1], ([2 \<mapsto> 1], [False]))
   \<and> fst (fibonacci_cpp 2 (snd (run_tasks [7, 3] ([2 \<mapsto> 1], [False])))) = Inr 1
   \<and> step [2 \<mapsto> 1] (Call 2) [2 \<mapsto> 1] (Finished (Inr 1))
   \<and> pool_steps [2 \<mapsto> 1] (map Call [3]) (fst (snd (run_tasks [3] ([2 \<mapsto> 1], []))))
         (map Finished (fst (run_tasks [3] ([2 \<mapsto> 1], []))))
   \<and> fst (fibonacci_cpp 2 (fst (snd (run_tasks [3] ([2 \<mapsto> 1], []))), [False])) = Inr 1"
proof -
  let ?c = "[2 \<mapsto> 1] :: cache"
  have nn: "\<not> (2 :: cpp_int) <s 0" by (simp add: word_sless_alt)
  have w: "(2 :: cpp_int) = 0 \<or> (2 :: cpp_int) = 1 \<or> ?c 2 \<noteq> None" by simp
  have ok: "cache_ok ?c" using cache_ok_upd[OF cache_ok_empty nn] by (simp add: Fib64_def numeral_2_eq_2)
  have r: "fst (fibonacci_cpp 2 (?c, [False])) = Inr 1"
    by (simp add: fibonacci_cpp.simps word_sless_alt)
  have hit: "step ?c (Call 2) ?c (Finished (Inr 1))" by (rule step.hit[OF nn]) simp_all
  have ps: "pool_steps ?c (map Call [3]) (fst (snd (run_tasks [3] (?c, []))))
              (map Finished (fst (run_tasks [3] (?c, []))))"
    using run_tasks_is_a_schedule[of "(?c, [])" "[]" "[3]"] by simp
  note t = warm_calls_agree[of 2 ?c "[False]" 3 "[7, 3]", OF nn w]
  have a: "run_tasks (replicate 3 2) (?c, [False])
             = (replicate 3 (fst (fibonacci_cpp 2 (?c, [False]))), (?c, [False]))"
    using t by blast
  have b: "fst (fibonacci_cpp 2 (snd (run_tasks [7, 3] (?c, [False]))))
             = fst (fibonacci_cpp 2 (?c, [False]))"
    using t by blast
  have d: "fst (fibonacci_cpp 2 (fst (snd (run_tasks [3] (?c, []))), [False]))
             = fst (fibonacci_cpp 2 (?c, [False]))"
    using t ok ps by blast
  show ?thesis using nn ok r hit ps a b d by (simp add: numeral_3_eq_3)
qed

text \<open>
  C10. The solver computes in \<open>long long\<close>: from a cache that satisfies the invariant, the
  value that a call returns, for any \<open>n\<close> and in any environment, is \<open>Fib n\<close> reduced modulo
  \<open>2 ^ 64\<close> and read as a signed number, and it is the value under key \<open>n\<close> when \<open>n \<ge> 2\<close>,
  as is every value in the cache for its key; for \<open>n \<ge> 93\<close> the value differs from
  \<open>Fib n\<close>.  So does the value at the end of every interleaved run that returns one, and a
  call returns one when every launch succeeds.
\<close>

theorem solver_arithmetic_is_64_bit:
  assumes "cache_ok c" "fibonacci_cpp n (c, ls) = (Inr v, (c', ls'))"
  shows "\<not> n <s 0
       \<and> v = word_of_nat (Fib (nat (sint n)))
       \<and> uint v = int (Fib (nat (sint n))) mod 2 ^ 64
       \<and> sint v = signed_take_bit 63 (int (Fib (nat (sint n))))
       \<and> (n \<noteq> 0 \<and> n \<noteq> 1 \<longrightarrow> c' n = Some v)
       \<and> (\<forall>m u. c' m = Some u \<longrightarrow> u = word_of_nat (Fib (nat (sint m))))
       \<and> (93 \<le> sint n \<longrightarrow> sint v \<noteq> int (Fib (nat (sint n))))
       \<and> (\<forall>c'' u. steps c (Call n) c'' (Finished (Inr u)) \<longrightarrow>
             u = word_of_nat (Fib (nat (sint n))))
       \<and> fst (fibonacci_cpp n (c, [])) = Inr v"
proof -
  let ?v = "word_of_nat (Fib (nat (sint n))) :: long_long"
  have f: "fst (fibonacci_cpp n (c, ls)) = Inr v" using assms(2) by simp
  have nv: "\<not> n <s 0 \<and> v = Fib64 n" using fibonacci_cpp_value[of "(c, ls)" n v] assms(1) f by simp
  hence nn: "\<not> n <s 0" and v: "v = ?v" by (simp_all add: Fib64_def)
  have u: "uint v = int (Fib (nat (sint n))) mod 2 ^ 64"
    unfolding v by (simp add: unsigned_of_nat take_bit_eq_mod of_nat_mod)
  have s: "sint v = signed_take_bit 63 (int (Fib (nat (sint n))))"
    unfolding v by (simp add: signed_of_nat)
  have st: "n \<noteq> 0 \<and> n \<noteq> 1 \<longrightarrow> c' n = Some v"
    using fibonacci_cpp_stores[OF nn _ _ f] assms(2) by simp
  have "cache_ok c'" using fibonacci_cpp_sound[of "(c, ls)" n] assms by simp
  hence inv: "\<forall>m u. c' m = Some u \<longrightarrow> u = word_of_nat (Fib (nat (sint m)))"
    by (simp add: cache_ok_def Fib64_def)
  have big: "93 \<le> sint n \<longrightarrow> sint v \<noteq> int (Fib (nat (sint n)))"
  proof
    assume "93 \<le> sint n"
    hence "93 \<le> nat (sint n)" by simp
    from sint_Fib_large[OF this] show "sint v \<noteq> int (Fib (nat (sint n)))" unfolding v by simp
  qed
  have run: "\<forall>c'' u. steps c (Call n) c'' (Finished (Inr u)) \<longrightarrow> u = ?v"
  proof (intro allI impI)
    fix c'' u
    assume "steps c (Call n) c'' (Finished (Inr u))"
    hence "Inr u = expected n \<or> Inr u = Inl System_Error"
      using every_schedule_agrees[OF assms(1)] by blast
    thus "u = ?v" using nn by (simp add: expected_def Fib64_def)
  qed
  have all: "fst (fibonacci_cpp n (c, [])) = Inr v"
    using fibonacci_cpp_expected[OF assms(1), of n] nv by (simp add: expected_def)
  show ?thesis by (intro conjI nn v u s st inv big run all)
qed

theorem solver_arithmetic_is_64_bit_witness:
  "cache_ok (fst (snd (run_tasks (map word_of_int [0..92]) (Map.empty, []))))
   \<and> fst (fibonacci_cpp 93 (snd (run_tasks (map word_of_int [0..92]) (Map.empty, []))))
       = Inr (- 6246583658587674878)
   \<and> \<not> (93 :: cpp_int) <s 0
   \<and> (- 6246583658587674878 :: long_long) = word_of_nat (Fib 93)
   \<and> fst (snd (fibonacci_cpp 93 (snd (run_tasks (map word_of_int [0..92]) (Map.empty, []))))) 93
       = Some (- 6246583658587674878)
   \<and> sint (- 6246583658587674878 :: long_long) \<noteq> int (Fib 93)"
proof -
  let ?W = "snd (run_tasks (map word_of_int [0..92]) (Map.empty, []))"
  let ?v = "- 6246583658587674878 :: long_long"
  have e: "fibonacci_cpp 93 (fst ?W, snd ?W)
             = (Inr ?v, (fst (snd (fibonacci_cpp 93 ?W)), snd (snd (fibonacci_cpp 93 ?W))))"
    using call_93_warm by (simp add: prod_eq_iff)
  note t = solver_arithmetic_is_64_bit[OF warm_92(1) e]
  have nn: "\<not> (93 :: cpp_int) <s 0" using t by (rule conjunct1)
  have a: "?v = word_of_nat (Fib (nat (sint (93 :: cpp_int))))"
    using t by (elim conjE)
  have b: "(93 :: cpp_int) \<noteq> 0 \<and> (93 :: cpp_int) \<noteq> 1 \<longrightarrow>
             fst (snd (fibonacci_cpp 93 ?W)) 93 = Some ?v"
    using t by (elim conjE)
  have d: "93 \<le> sint (93 :: cpp_int) \<longrightarrow> sint ?v \<noteq> int (Fib (nat (sint (93 :: cpp_int))))"
    using t by (elim conjE)
  have a': "?v = word_of_nat (Fib 93)" using a by simp
  have b': "fst (snd (fibonacci_cpp 93 ?W)) 93 = Some ?v" using b by simp
  have d': "sint ?v \<noteq> int (Fib 93)" using d by simp
  show ?thesis by (intro conjI warm_92(1) call_93_warm nn a' b' d')
qed

end
